theory Spec2Isabelle
  imports Complex_Main
begin

section \<open>RCON client: \<open>RCONManager\<close>\<close>

text \<open>
  The session object of \<open>RCONManager\<close>. \<open>socket\<close> is \<open>True\<close> while \<open>this.socket\<close> holds a
  socket object and \<open>False\<close> while it is \<open>null\<close>. \<open>pendingRequests\<close> is the JavaScript
  \<open>Map\<close> from request id to the \<open>{resolve, reject}\<close> pair of the promise that waits for the
  response, kept in insertion order as \<open>Map\<close> does. Calling one of the stored callbacks
  (\<open>CallResolve\<close>, \<open>CallReject\<close>), the rejection of a command's promise by its own
  10 s timer (\<open>TimeoutReject\<close>), closing the socket and sending a datagram are effects;
  each operation returns the list of the effects it performs, in order.
\<close>

datatype rcon_error = NotConnected | ConnectionError | CommandTimeout

datatype pending_kind = AuthRequest | CommandRequest

datatype rcon_effect =
    SocketClose
  | SendDatagram nat string
  | CallResolve nat string
  | CallReject nat rcon_error
  | TimeoutReject nat rcon_error

record rcon_state =
  socket :: bool
  isConnected :: bool
  requestId :: nat
  pendingRequests :: "(nat \<times> pending_kind) list"

text \<open>\<open>Map.prototype.set\<close>: an existing key keeps its position, a new key goes last.\<close>

fun map_set :: "nat \<Rightarrow> 'v \<Rightarrow> (nat \<times> 'v) list \<Rightarrow> (nat \<times> 'v) list" where
  "map_set k v [] = [(k, v)]"
| "map_set k v ((k', v') # kvs) =
     (if k' = k then (k, v) # kvs else (k', v') # map_set k v kvs)"

text \<open>
  \<open>getNextRequestId\<close>: \<open>this.requestId = (this.requestId + 1) % 0xFFFFFFFF\<close>, where
  \<open>0xFFFFFFFF = 4294967295 = 2^32 - 1\<close>. The counter is a JavaScript number holding an
  integer far below \<open>2^53\<close>, so the arithmetic is exact.
\<close>

definition getNextRequestId :: "rcon_state \<Rightarrow> nat \<times> rcon_state" where
  "getNextRequestId s =
     (let r = (requestId s + 1) mod 4294967295 in (r, s\<lparr>requestId := r\<rparr>))"

text \<open>
  \<open>sendCommand\<close> up to the point where the promise is returned: it throws when
  \<open>!this.isConnected || !this.socket\<close> (evaluated left to right), otherwise takes the next id, stores the callback pair under it and sends the
  datagram.
\<close>

definition sendCommand :: "string \<Rightarrow> rcon_state \<Rightarrow> (rcon_error + nat) \<times> rcon_state \<times> rcon_effect list" where
  "sendCommand command s =
     (if \<not> isConnected s then (Inl NotConnected, s, [])
      else if \<not> socket s then (Inl NotConnected, s, [])
      else (let (rid, s1) = getNextRequestId s;
                s2 = s1\<lparr>pendingRequests := map_set rid CommandRequest (pendingRequests s1)\<rparr>
            in (Inr rid, s2, [SendDatagram rid command])))"

text \<open>
  The callback of the timer that \<open>sendCommand\<close> sets for the request \<open>rid\<close>; only the
  stored callbacks clear that timer. It deletes the entry and rejects the promise with
  the timeout error.
\<close>

definition onCommandTimeout :: "nat \<Rightarrow> rcon_state \<Rightarrow> rcon_state \<times> rcon_effect list" where
  "onCommandTimeout rid s =
     (s\<lparr>pendingRequests := filter (\<lambda>(k, _). k \<noteq> rid) (pendingRequests s)\<rparr>,
      [TimeoutReject rid CommandTimeout])"

text \<open>
  The handler of the socket's \<open>error\<close> event: it clears the connected flag and calls the
  \<open>reject\<close> callback of every pending entry before it empties the map.
\<close>

definition onSocketError :: "rcon_state \<Rightarrow> rcon_state \<times> rcon_effect list" where
  "onSocketError s =
     (s\<lparr>isConnected := False, pendingRequests := []\<rparr>,
      map (\<lambda>(rid, _). CallReject rid ConnectionError) (pendingRequests s))"

text \<open>
  \<open>disconnect\<close>: closes and forgets the socket when there is one, clears the connected
  flag, and empties the map with \<open>this.pendingRequests.clear()\<close>. No callback is called.
\<close>

definition disconnect :: "rcon_state \<Rightarrow> rcon_state \<times> rcon_effect list" where
  "disconnect s =
     (s\<lparr>socket := False, isConnected := False, pendingRequests := []\<rparr>,
      if socket s then [SocketClose] else [])"

text \<open>A session right after a successful \<open>connect\<close>: the authentication took id 1.\<close>

definition connected_session :: rcon_state where
  "connected_session =
     \<lparr>socket = True, isConnected = True, requestId = 1, pendingRequests = []\<rparr>"

text \<open>The effects that settle a pending promise through its stored callbacks.\<close>

fun settles :: "nat \<Rightarrow> rcon_effect \<Rightarrow> bool" where
  "settles rid (CallResolve r _) = (r = rid)"
| "settles rid (CallReject r _) = (r = rid)"
| "settles rid _ = False"


section \<open>Mod download queue: \<open>ModQueue\<close>\<close>

subsection \<open>Items and the queue object\<close>

text \<open>
  A queue item is a JavaScript object; the queue array, the \<open>currentItem\<close> field and the
  local variable \<open>item\<close> of the processing loop all hold references to it, and the loop
  changes the item through its reference. So items live in a store (\<open>heap\<close>, from
  reference to object), \<open>nextRef\<close> is the reference the next created object gets, and the
  queue is a list of references. \<open>item_id\<close> is the field \<open>id\<close>
  (\<open>Date.now() + Math.random()\<close>, a value the environment supplies). A field that an object
  does not have (\<open>workshopId\<close> and \<open>error\<close> of a collection item, \<open>collectionId\<close> and
  \<open>modIds\<close> of a mod item) is \<open>None\<close>; \<open>addedAt\<close> and \<open>modCount\<close> are never read and are
  left out. The events that the queue emits to its listeners carry snapshots and items
  and change nothing in the queue; of them the model keeps the progress values of the
  \<open>item-progress\<close> events.
\<close>

datatype status = Pending | Downloading | Completed | Failed

record item =
  item_id :: rat
  workshopId :: "string option"
  collectionId :: "string option"
  isCollection :: bool
  name :: string
  modIds :: "string list option"
  status :: status
  progress :: int
  error :: "string option"

type_synonym ref = nat

record mod_queue =
  heap :: "ref \<Rightarrow> item"
  nextRef :: ref
  queue :: "ref list"
  isProcessing :: bool
  currentItem :: "ref option"
  mq_serverPath :: "string option"

datatype mq_error = CannotRemoveDownloading | CannotClearWhileProcessing | CollectionFailed

definition blank_item :: item where
  "blank_item =
     \<lparr>item_id = 0, workshopId = None, collectionId = None, isCollection = False,
      name = [], modIds = None, status = Pending, progress = 0, error = None\<rparr>"

text \<open>The constructor: an empty queue, nothing processing, no server path.\<close>

definition new_queue :: mod_queue where
  "new_queue =
     \<lparr>heap = (\<lambda>_. blank_item), nextRef = 0, queue = [], isProcessing = False,
      currentItem = None, mq_serverPath = None\<rparr>"

text \<open>\<open>a || b\<close> on an optional string: \<open>null\<close>, \<open>undefined\<close> and the empty string are falsy.\<close>

fun or_else :: "string option \<Rightarrow> string \<Rightarrow> string" where
  "or_else None d = d"
| "or_else (Some v) d = (if v = [] then d else v)"

text \<open>Creating the item object and \<open>this.queue.push(item)\<close>.\<close>

definition push_item :: "item \<Rightarrow> mod_queue \<Rightarrow> mod_queue" where
  "push_item it s =
     s\<lparr>heap := (heap s)(nextRef s := it), nextRef := Suc (nextRef s),
       queue := queue s @ [nextRef s]\<rparr>"

definition new_mod_item :: "rat \<Rightarrow> string \<Rightarrow> bool \<Rightarrow> string option \<Rightarrow> item" where
  "new_mod_item newId wid isColl nm =
     \<lparr>item_id = newId, workshopId = Some wid, collectionId = None, isCollection = isColl,
      name = or_else nm (''Mod '' @ wid), modIds = None, status = Pending, progress = 0,
      error = None\<rparr>"

definition new_collection_item :: "rat \<Rightarrow> string \<Rightarrow> string option \<Rightarrow> string option \<Rightarrow> string list \<Rightarrow> item" where
  "new_collection_item newId cid nm collName ids =
     \<lparr>item_id = newId, workshopId = None, collectionId = Some cid, isCollection = True,
      name = or_else nm (or_else collName (''Collection '' @ cid)), modIds = Some ids,
      status = Pending, progress = 0, error = None\<rparr>"

subsection \<open>\<open>getQueueStatus\<close>\<close>

record item_view =
  v_id :: rat
  v_workshopId :: "string option"
  v_isCollection :: bool
  v_name :: string
  v_status :: status
  v_progress :: int
  v_error :: "string option"

record queue_status =
  qs_total :: nat
  qs_pending :: nat
  qs_downloading :: nat
  qs_completed :: nat
  qs_failed :: nat
  qs_currentItem :: "ref option"
  qs_isProcessing :: bool
  qs_queue :: "item_view list"

definition count_status :: "status \<Rightarrow> mod_queue \<Rightarrow> nat" where
  "count_status st s = length (filter (\<lambda>r. status (heap s r) = st) (queue s))"

definition view :: "item \<Rightarrow> item_view" where
  "view it =
     \<lparr>v_id = item_id it,
      v_workshopId =
        (if or_else (workshopId it) [] = [] then collectionId it else workshopId it),
      v_isCollection = isCollection it, v_name = name it, v_status = status it,
      v_progress = progress it, v_error = error it\<rparr>"

definition getQueueStatus :: "mod_queue \<Rightarrow> queue_status" where
  "getQueueStatus s =
     \<lparr>qs_total = length (queue s),
      qs_pending = count_status Pending s,
      qs_downloading = count_status Downloading s,
      qs_completed = count_status Completed s,
      qs_failed = count_status Failed s,
      qs_currentItem = currentItem s,
      qs_isProcessing = isProcessing s,
      qs_queue = map (\<lambda>r. view (heap s r)) (queue s)\<rparr>"

subsection \<open>Removing and clearing\<close>

text \<open>
  \<open>removeFromQueue\<close>: \<open>findIndex\<close> gives the first item with the id; the call throws when
  that item is downloading, splices it out otherwise, and returns \<open>false\<close> when no item has
  the id.
\<close>

definition removeFromQueue :: "rat \<Rightarrow> mod_queue \<Rightarrow> (mq_error + bool) \<times> mod_queue" where
  "removeFromQueue itemId s =
     (case find (\<lambda>r. item_id (heap s r) = itemId) (queue s) of
        None \<Rightarrow> (Inr False, s)
      | Some r \<Rightarrow>
          if status (heap s r) = Downloading then (Inl CannotRemoveDownloading, s)
          else (Inr True, s\<lparr>queue := remove1 r (queue s)\<rparr>))"

text \<open>
  \<open>clearCompleted\<close>: keeps the items whose status is neither \<open>completed\<close> nor \<open>failed\<close> and
  returns how many items the filter dropped.
\<close>

definition keeps :: "mod_queue \<Rightarrow> ref \<Rightarrow> bool" where
  "keeps s r = (status (heap s r) \<noteq> Completed \<and> status (heap s r) \<noteq> Failed)"

definition clearCompleted :: "mod_queue \<Rightarrow> nat \<times> mod_queue" where
  "clearCompleted s =
     (let before = length (queue s);
          s' = s\<lparr>queue := filter (keeps s) (queue s)\<rparr>;
          removed = before - length (queue s')
      in (removed, s'))"

definition clearAll :: "mod_queue \<Rightarrow> (mq_error + unit) \<times> mod_queue" where
  "clearAll s =
     (if isProcessing s then (Inl CannotClearWhileProcessing, s)
      else (Inr (), s\<lparr>queue := []\<rparr>))"

definition setServerPath :: "string option \<Rightarrow> mod_queue \<Rightarrow> mod_queue" where
  "setServerPath p s = s\<lparr>mq_serverPath := p\<rparr>"


subsection \<open>Processing one item\<close>

text \<open>
  What the mod provider and the config store do for one download is the environment's
  choice. A \<open>member_run\<close> records it: the values \<open>progress.progress || 0\<close> that
  \<open>downloadMod\<close> passes to the progress callback, in order; how \<open>downloadMod\<close> ends
  (\<open>result.success\<close> true, \<open>result.success\<close> false with \<open>result.error\<close>, or an exception with
  its message); what \<open>getModDetails\<close> gives; and whether \<open>config.addMod\<close> throws, in the
  \<open>try\<close> block and in the fallback call of the \<open>catch\<close> block (with the message). The
  provider is a function from the position of the download within the item to its run.
\<close>

datatype download_result = Success | Unsuccessful "string option" | Threw string

datatype details_result = DetailsName string | DetailsNoName | DetailsThrew

record member_run =
  subProgress :: "int list"
  download :: download_result
  details :: details_result
  addModThrows :: bool
  addModRetryThrows :: "string option"

text \<open>
  The block that registers a downloaded mod in the config: the \<open>catch\<close> block runs when
  \<open>getModDetails\<close> or the first \<open>addMod\<close> throws, and an exception of its own \<open>addMod\<close> call
  leaves the block.
\<close>

definition registrationError :: "member_run \<Rightarrow> string option" where
  "registrationError m =
     (if details m = DetailsThrew then addModRetryThrows m
      else if addModThrows m then addModRetryThrows m
      else None)"

text \<open>
  JavaScript numbers are binary64 values, and each of \<open>/\<close>, \<open>*\<close> and \<open>+\<close> returns the
  binary64 value nearest to the exact result, a tie going to the even significand.
  \<open>fl64\<close> is that rounding on an exact rational: the significand is scaled to 53 bits
  (\<open>floor_log2\<close> is the exponent of the leading bit, found from the lengths in bits of
  numerator and denominator) and rounded to an integer. It is the
  rounding of the normal range, magnitudes from \<open>2^-1022\<close> to below \<open>2^1024\<close>; the
  progress values computed here lie far inside it. Counters and progress values are
  integers below \<open>2^53\<close>, which binary64 holds exactly.
\<close>

function bit_length :: "int \<Rightarrow> int" where
  "bit_length n = (if n \<le> 0 then 0 else 1 + bit_length (n div 2))"
  by pat_completeness auto
termination
  by (relation "measure nat") auto

declare bit_length.simps [simp del]

definition pow2 :: "int \<Rightarrow> rat" where
  "pow2 e = (if 0 \<le> e then 2 ^ nat e else 1 / 2 ^ nat (- e))"

definition floor_log2 :: "rat \<Rightarrow> int" where
  "floor_log2 x =
     (case quotient_of x of
        (p, q) \<Rightarrow>
          (let d = bit_length p - bit_length q
           in if pow2 d \<le> x then d else d - 1))"

definition round_even :: "rat \<Rightarrow> int" where
  "round_even x =
     (let f = \<lfloor>x\<rfloor>; r = x - of_int f
      in if r < 1 / 2 then f
         else if 1 / 2 < r then f + 1
         else if even f then f
         else f + 1)"

definition fl64 :: "rat \<Rightarrow> rat" where
  "fl64 x =
     (if x = 0 then 0
      else (let e = floor_log2 \<bar>x\<bar> - 52
            in sgn x * of_int (round_even (\<bar>x\<bar> / pow2 e)) * pow2 e))"

text \<open>
  \<open>Math.round\<close> gives the integer nearest to its argument, a half going upwards; it is
  exact on the binary64 value it gets.
\<close>

definition js_round :: "rat \<Rightarrow> int" where
  "js_round x = \<lfloor>x + 1 / 2\<rfloor>"

text \<open>A non-negative integer in a template literal: its decimal digits.\<close>

fun show_nat :: "nat \<Rightarrow> string" where
  "show_nat n =
     (if n < 10 then [char_of (48 + n)]
      else show_nat (n div 10) @ [char_of (48 + n mod 10)])"

declare show_nat.simps [simp del]

text \<open>
  One round of the \<open>for\<close> loop over \<open>item.modIds\<close>, for the member at index \<open>i\<close>. The state
  of the loop is \<open>successCount\<close>, \<open>failCount\<close> and the progress values reported so far by
  \<open>item-progress\<close> events: before the download starts
  \<open>Math.round(((i + 1) / total) * 100)\<close>, then for each call of the progress callback
  \<open>Math.round((i / total) * 100 + (modProgress / total))\<close>.
\<close>

definition member_reports :: "nat \<Rightarrow> nat \<Rightarrow> member_run \<Rightarrow> int list" where
  "member_reports tot i m =
     js_round (fl64 (fl64 (of_nat (i + 1) / of_nat tot) * 100))
     # map (\<lambda>p. js_round (fl64 (fl64 (fl64 (of_nat i / of_nat tot) * 100)
                                   + fl64 (of_int p / of_nat tot))))
         (subProgress m)"

definition member_step :: "nat \<Rightarrow> (nat \<Rightarrow> member_run) \<Rightarrow> nat \<times> nat \<times> int list \<Rightarrow> nat \<Rightarrow> nat \<times> nat \<times> int list" where
  "member_step tot provider acc i =
     (case acc of (successCount, failCount, reports) \<Rightarrow>
        (let m = provider i; reports' = reports @ member_reports tot i m in
         case download m of
           Success \<Rightarrow>
             (case registrationError m of
                None \<Rightarrow> (successCount + 1, failCount, reports')
              | Some _ \<Rightarrow> (successCount + 1, failCount + 1, reports'))
         | Unsuccessful _ \<Rightarrow> (successCount, failCount + 1, reports')
         | Threw _ \<Rightarrow> (successCount, failCount + 1, reports')))"

fun member_loop :: "nat \<Rightarrow> (nat \<Rightarrow> member_run) \<Rightarrow> nat \<Rightarrow> nat \<Rightarrow> nat \<times> nat \<times> int list \<Rightarrow> nat \<times> nat \<times> int list" where
  "member_loop tot provider i 0 acc = acc"
| "member_loop tot provider i (Suc k) acc =
     member_loop tot provider (Suc i) k (member_step tot provider acc i)"

text \<open>The statements after the \<open>for\<close> loop: progress 100 and the terminal status.\<close>

definition finish_collection :: "nat \<Rightarrow> nat \<Rightarrow> nat \<Rightarrow> item \<Rightarrow> item" where
  "finish_collection tot successCount failCount it =
     (if failCount = 0 then it\<lparr>status := Completed, progress := 100\<rparr>
      else it\<lparr>status := (if failCount = tot then Failed else Completed),
              progress := 100,
              error := Some (show_nat successCount @ '' succeeded, ''
                             @ show_nat failCount @ '' failed'')\<rparr>)"

text \<open>
  The collection branch for an item with the member list \<open>ids\<close>; the result is the item
  after the branch, the two counters and the reported progress values.
\<close>

definition process_collection :: "(nat \<Rightarrow> member_run) \<Rightarrow> string list \<Rightarrow> item \<Rightarrow> item \<times> nat \<times> nat \<times> int list" where
  "process_collection provider ids it =
     (let tot = length ids in
      case member_loop tot provider 0 tot (0, 0, []) of
        (successCount, failCount, reports) \<Rightarrow>
          (finish_collection tot successCount failCount it, successCount, failCount, reports))"

text \<open>
  The single-mod branch. The callback stores each reported value in \<open>item.progress\<close>. An
  exception (of \<open>downloadMod\<close>, or of the registration after a successful download) reaches
  the \<open>catch\<close> of the item, which marks it failed with the message.
\<close>

definition process_single :: "(nat \<Rightarrow> member_run) \<Rightarrow> item \<Rightarrow> item \<times> int list" where
  "process_single provider it =
     (let m = provider 0;
          reports = subProgress m;
          it1 = (if reports = [] then it else it\<lparr>progress := last reports\<rparr>)
      in case download m of
           Success \<Rightarrow>
             (case registrationError m of
                None \<Rightarrow> (it1\<lparr>status := Completed, progress := 100\<rparr>, reports)
              | Some msg \<Rightarrow> (it1\<lparr>status := Failed, progress := 100, error := Some msg\<rparr>, reports))
         | Unsuccessful e \<Rightarrow>
             (it1\<lparr>status := Failed, error := Some (or_else e ''Download failed'')\<rparr>, reports)
         | Threw msg \<Rightarrow> (it1\<lparr>status := Failed, error := Some msg\<rparr>, reports))"

text \<open>
  The \<open>try\<close> block of the loop body for the item picked: it throws when the server path is
  not set (\<open>null\<close> or empty), takes the collection branch when \<open>item.isCollection &&
  item.modIds\<close>, and the single-mod branch otherwise.
\<close>

definition process_item :: "string option \<Rightarrow> (nat \<Rightarrow> member_run) \<Rightarrow> item \<Rightarrow> item \<times> int list" where
  "process_item path provider it =
     (if or_else path [] = [] then
        (it\<lparr>status := Failed, error := Some ''Server path not set''\<rparr>, [])
      else if isCollection it then
        (case modIds it of
           Some ids \<Rightarrow>
             (case process_collection provider ids it of (it', _, _, reports) \<Rightarrow> (it', reports))
         | None \<Rightarrow> process_single provider it)
      else process_single provider it)"

text \<open>
  The members of a collection by what happened to them. A member has succeeded when its
  download returned success, which is when the loop increments \<open>successCount\<close>. A member
  has failed when its download returned failure or threw, or when an exception left the
  registration of the downloaded mod (\<open>getModDetails\<close> or the first \<open>addMod\<close> threw, and
  then the fallback \<open>addMod\<close> threw as well), which is when the loop increments
  \<open>failCount\<close>. A member of the last kind is on both sides; the two numbers add up to the
  number of members exactly when there is no such member.
\<close>

definition registration_escapes :: "member_run \<Rightarrow> bool" where
  "registration_escapes m =
     ((details m = DetailsThrew \<or> addModThrows m) \<and> addModRetryThrows m \<noteq> None)"

definition member_succeeded :: "member_run \<Rightarrow> bool" where
  "member_succeeded m = (download m = Success)"

definition member_failed :: "member_run \<Rightarrow> bool" where
  "member_failed m = (download m \<noteq> Success \<or> registration_escapes m)"

definition count_members :: "(member_run \<Rightarrow> bool) \<Rightarrow> (nat \<Rightarrow> member_run) \<Rightarrow> nat \<Rightarrow> nat" where
  "count_members P provider n = length (filter (\<lambda>i. P (provider i)) [0..<n])"


subsection \<open>The processing loop and the reachable states\<close>

text \<open>
  \<open>processQueue\<close> is an \<open>async\<close> function: a call runs until it returns or reaches an
  \<open>await\<close>, and other calls on the queue run while it waits. A running call is a loop
  instance with a control point: \<open>AtHead\<close>, about to evaluate the \<open>while\<close> condition;
  \<open>Running r\<close>, inside the \<open>try\<close> block with the local variable \<open>item\<close> referring to \<open>r\<close>,
  before the item gets a terminal status; or \<open>Registering r\<close>, in the single-mod branch
  after the download has succeeded and the item has been marked completed, while the
  mod is registered in the config. A configuration is the queue object with the list of
  the loop instances alive.
\<close>

datatype loop_pc = AtHead | Running ref | Registering ref

type_synonym mq_config = "mod_queue \<times> loop_pc list"

text \<open>
  A call of \<open>processQueue\<close>: it returns at once when \<open>isProcessing\<close> is set; otherwise it
  sets the flag and a new loop instance starts.
\<close>

definition processQueue :: "mq_config \<Rightarrow> mq_config" where
  "processQueue c =
     (case c of (s, ls) \<Rightarrow>
        if isProcessing s then (s, ls) else (s\<lparr>isProcessing := True\<rparr>, ls @ [AtHead]))"

definition addToQueue :: "rat \<Rightarrow> string \<Rightarrow> bool \<Rightarrow> string option \<Rightarrow> mq_config \<Rightarrow> rat \<times> mq_config" where
  "addToQueue newId wid isColl nm c =
     (case c of (s, ls) \<Rightarrow>
        (let s1 = push_item (new_mod_item newId wid isColl nm) s in
         (newId, if isProcessing s1 then (s1, ls) else processQueue (s1, ls))))"

text \<open>
  \<open>addCollectionToQueue\<close>; \<open>coll\<close> is what \<open>getCollectionDetails\<close> gives: \<open>None\<close> when it
  throws, otherwise the collection's name and member ids, each possibly missing.
\<close>

definition addCollectionToQueue :: "rat \<Rightarrow> string \<Rightarrow> string option \<Rightarrow> (string option \<times> string list option) option \<Rightarrow> mq_config \<Rightarrow> (mq_error + rat) \<times> mq_config" where
  "addCollectionToQueue newId cid nm coll c =
     (case c of (s, ls) \<Rightarrow>
        (case coll of
           None \<Rightarrow> (Inl CollectionFailed, c)
         | Some (collName, None) \<Rightarrow> (Inl CollectionFailed, c)
         | Some (collName, Some ids) \<Rightarrow>
             if ids = [] then (Inl CollectionFailed, c)
             else (let s1 = push_item (new_collection_item newId cid nm collName ids) s in
                   (Inr newId, if isProcessing s1 then (s1, ls) else processQueue (s1, ls)))))"

text \<open>
  From the \<open>while\<close> condition to the next control point. The loop ends (\<open>None\<close>) when the
  queue is empty or holds no pending and no downloading item, and then clears
  \<open>isProcessing\<close>. With a pending item it takes the first one, makes it the current item and
  marks it downloading. With no pending item but a downloading one it waits a second and
  comes back to the condition.
\<close>

definition loop_head :: "mod_queue \<Rightarrow> mod_queue \<times> loop_pc option" where
  "loop_head s =
     (if queue s = [] then (s\<lparr>isProcessing := False\<rparr>, None)
      else
        (case find (\<lambda>r. status (heap s r) = Pending) (queue s) of
           Some r \<Rightarrow>
             (s\<lparr>heap := (heap s)(r := (heap s r)\<lparr>status := Downloading\<rparr>),
                currentItem := Some r\<rparr>,
              Some (Running r))
         | None \<Rightarrow>
             (case find (\<lambda>r. status (heap s r) = Downloading) (queue s) of
                None \<Rightarrow> (s\<lparr>isProcessing := False\<rparr>, None)
              | Some _ \<Rightarrow> (s, Some AtHead))))"

text \<open>A progress report while the item is processed: \<open>item.progress = p\<close>.\<close>

definition item_progress :: "ref \<Rightarrow> int \<Rightarrow> mod_queue \<Rightarrow> mod_queue" where
  "item_progress r p s = s\<lparr>heap := (heap s)(r := (heap s r)\<lparr>progress := p\<rparr>)\<rparr>"

text \<open>
  The single-mod branch after a successful download: \<open>item.progress = 100\<close> and
  \<open>item.status = 'completed'\<close>, and then the loop awaits \<open>getModDetails\<close> and
  \<open>config.addMod\<close>, so other calls see the item completed and can remove it.
\<close>

definition item_downloaded :: "ref \<Rightarrow> mod_queue \<Rightarrow> mod_queue" where
  "item_downloaded r s =
     s\<lparr>heap := (heap s)(r := (heap s r)\<lparr>progress := 100, status := Completed\<rparr>)\<rparr>"

text \<open>
  The end of that registration and of the loop body: when an exception leaves the
  registration (\<open>Some\<close>, with its message) the \<open>catch\<close> of the item marks it failed; in
  both cases \<open>currentItem\<close> is cleared.
\<close>

definition item_registered :: "string option \<Rightarrow> ref \<Rightarrow> mod_queue \<Rightarrow> mod_queue" where
  "item_registered err r s =
     (case err of
        None \<Rightarrow> s\<lparr>currentItem := None\<rparr>
      | Some msg \<Rightarrow>
          s\<lparr>heap := (heap s)(r := (heap s r)\<lparr>status := Failed, error := Some msg\<rparr>),
            currentItem := None\<rparr>)"

text \<open>
  The end of the loop body in one step, for the endings with no \<open>await\<close> between the
  terminal status and the end of the body: the item gets the fields the \<open>try\<close> block (or
  its \<open>catch\<close>) gives it, and \<open>currentItem\<close> is cleared. \<open>path\<close> is the server path the block
  read.
\<close>

definition item_finish :: "string option \<Rightarrow> (nat \<Rightarrow> member_run) \<Rightarrow> ref \<Rightarrow> mod_queue \<Rightarrow> mod_queue" where
  "item_finish path provider r s =
     s\<lparr>heap := (heap s)(r := fst (process_item path provider (heap s r))),
       currentItem := None\<rparr>"

text \<open>
  One step of the system: a call of a public operation, or a step of a loop instance.
  Calls may come between any two steps of a loop, which is more than the event loop
  allows (there they come only while a loop waits); the progress values, the provider's
  runs and the outcome of a registration are arbitrary; and \<open>step_finish\<close> is allowed for
  every item, also where the code goes through \<open>step_downloaded\<close> and \<open>step_registered\<close>.
  The relation allows more runs than the code has; of the code's runs it has all those
  in which no listener of an emitted event throws.
\<close>

inductive mq_step :: "mq_config \<Rightarrow> mq_config \<Rightarrow> bool" where
  step_add: "mq_step c (snd (addToQueue newId wid isColl nm c))"
| step_addCollection: "mq_step c (snd (addCollectionToQueue newId cid nm coll c))"
| step_remove: "mq_step (s, ls) (snd (removeFromQueue itemId s), ls)"
| step_clearCompleted: "mq_step (s, ls) (snd (clearCompleted s), ls)"
| step_clearAll: "mq_step (s, ls) (snd (clearAll s), ls)"
| step_setServerPath: "mq_step (s, ls) (setServerPath p s, ls)"
| step_head:
    "k < length ls \<Longrightarrow> ls ! k = AtHead \<Longrightarrow> loop_head s = (s', Some pc)
     \<Longrightarrow> mq_step (s, ls) (s', ls[k := pc])"
| step_exit:
    "k < length ls \<Longrightarrow> ls ! k = AtHead \<Longrightarrow> loop_head s = (s', None)
     \<Longrightarrow> mq_step (s, ls) (s', take k ls @ drop (Suc k) ls)"
| step_progress:
    "k < length ls \<Longrightarrow> ls ! k = Running r
     \<Longrightarrow> mq_step (s, ls) (item_progress r p s, ls)"
| step_finish:
    "k < length ls \<Longrightarrow> ls ! k = Running r
     \<Longrightarrow> mq_step (s, ls) (item_finish path provider r s, ls[k := AtHead])"
| step_downloaded:
    "k < length ls \<Longrightarrow> ls ! k = Running r
     \<Longrightarrow> mq_step (s, ls) (item_downloaded r s, ls[k := Registering r])"
| step_registered:
    "k < length ls \<Longrightarrow> ls ! k = Registering r
     \<Longrightarrow> mq_step (s, ls) (item_registered err r s, ls[k := AtHead])"

inductive reachable :: "mq_config \<Rightarrow> bool" where
  reach_init: "reachable (new_queue, [])"
| reach_step: "reachable c \<Longrightarrow> mq_step c c' \<Longrightarrow> reachable c'"


subsection \<open>The invariant of the reachable states\<close>

text \<open>
  No queued item is downloading; or exactly the item \<open>x\<close> is. \<open>phase\<close> ties this to the
  loop instances alive: none (and then \<open>isProcessing\<close> is clear), or one, which is at the
  loop head or registering a completed mod, with no item downloading, or inside the loop
  body for the one downloading item. References in the queue are distinct and come from
  past allocations.
\<close>

definition none_downloading :: "mod_queue \<Rightarrow> bool" where
  "none_downloading s = (\<forall>r \<in> set (queue s). status (heap s r) \<noteq> Downloading)"

definition only_downloading :: "ref \<Rightarrow> mod_queue \<Rightarrow> bool" where
  "only_downloading x s =
     (x \<in> set (queue s) \<and> status (heap s x) = Downloading
      \<and> (\<forall>r \<in> set (queue s). status (heap s r) = Downloading \<longrightarrow> r = x))"

fun phase :: "mod_queue \<Rightarrow> loop_pc list \<Rightarrow> bool" where
  "phase s [] = (\<not> isProcessing s \<and> none_downloading s)"
| "phase s [AtHead] = (isProcessing s \<and> none_downloading s)"
| "phase s [Running x] = (isProcessing s \<and> only_downloading x s)"
| "phase s [Registering x] = (isProcessing s \<and> none_downloading s)"
| "phase s (_ # _ # _) = False"

definition well_allocated :: "mod_queue \<Rightarrow> bool" where
  "well_allocated s = (distinct (queue s) \<and> (\<forall>r \<in> set (queue s). r < nextRef s))"

definition mq_inv :: "mq_config \<Rightarrow> bool" where
  "mq_inv c = (well_allocated (fst c) \<and> phase (fst c) (snd c))"


section \<open>Server process supervisor: \<open>ServerControl\<close>\<close>

subsection \<open>State, environment and effects\<close>

text \<open>
  \<open>proc\<close> is the child-process object that \<open>spawn\<close> returns: its \<open>pid\<close> (\<open>undefined\<close> is
  \<open>None\<close>) and its \<open>killed\<close> flag, which Node sets once \<open>kill\<close> has sent a signal through
  this object. The supervisor holds at most one in \<open>serverProcess\<close> (\<open>null\<close> is \<open>None\<close>).
  \<open>monitoringInterval\<close> is \<open>True\<close> while the interval timer is set.
\<close>

datatype platform = Win32 | Posix

datatype signal = SIGTERM | SIGKILL

record proc =
  pid :: "nat option"
  killed :: bool

record scheduled_restart =
  sr_id :: string
  sr_time :: "int option"
  sr_serverPath :: string
  sr_profileName :: string
  sr_parameters :: "string list"
  executed :: bool

record server_control =
  serverProcess :: "proc option"
  serverPath :: "string option"
  isRunning :: bool
  monitoringInterval :: bool
  scheduledRestarts :: "scheduled_restart list"

text \<open>
  What the operating system and the file system answer during one \<open>startServer\<close> or
  \<open>stopServer\<close> call: whether the server path exists, whether \<open>ensureDir\<close> succeeds,
  whether the executable exists, whether \<open>readdir\<close> succeeds, whether \<open>spawn\<close> returns
  (and the object it returns, as it looks after the 500 ms wait), what happens during
  that wait, and whether the \<open>kill\<close> or \<open>exec\<close> call of \<open>stopServer\<close> returns. During the
  wait the process's \<open>error\<close> event may fire (\<open>SpawnErrorEvent\<close>: the handler records the
  error, clears \<open>isRunning\<close> and \<open>serverProcess\<close>), or another callback may clear
  \<open>serverProcess\<close> (\<open>HandleCleared\<close>: the \<open>close\<close> handler that an earlier successful start
  registered for its process, which also clears \<open>isRunning\<close>). The callbacks that earlier
  calls left armed are not part of the supervisor's fields, and nothing ever cancels
  them; when and whether they run is the environment's choice. The \<open>killed\<close> flag of the
  spawned object is set after the wait when the 5000 ms timer of an earlier \<open>stopServer\<close>
  has fired during it: its callback finds the new handle in \<open>serverProcess\<close> and sends
  \<open>SIGKILL\<close> through it.
\<close>

datatype grace_event = NoEvent | SpawnErrorEvent | HandleCleared

record sc_env =
  pathExists :: bool
  ensureDirOk :: bool
  exeExists :: bool
  readdirOk :: bool
  spawnOk :: bool
  spawned :: proc
  grace :: grace_event
  killOk :: bool

datatype start_failure =
    PathNotFound | EnsureDirFailed | ExecutableNotFound | ReaddirFailed
  | SpawnThrew | SpawnFailed | ProcessNull | KilledAfterStart | NoPid

datatype sc_error =
    ServerAlreadyRunning
  | ServerProcessExists
  | StartFailed start_failure
  | ServerNotRunning
  | StopFailed

text \<open>
  The effects on the outside: spawning the executable (directory, file name, arguments),
  a signal sent through a process object (given by its pid), the \<open>taskkill\<close> command, the
  timer that \<open>stopServer\<close> sets, and the call of \<open>restartServer\<close> that
  \<open>checkScheduledRestarts\<close> makes for the registry entry at an index.
\<close>

datatype sc_effect =
    Spawn string string "string list"
  | Kill "nat option" signal
  | Taskkill "nat option"
  | SetTimeout nat
  | RestartEntry nat

definition new_server_control :: server_control where
  "new_server_control =
     \<lparr>serverProcess = None, serverPath = None, isRunning = False,
      monitoringInterval = False, scheduledRestarts = []\<rparr>"

text \<open>\<open>this.serverProcess && this.serverProcess.pid\<close>: a handle with a truthy pid.\<close>

definition pid_truthy :: "proc \<Rightarrow> bool" where
  "pid_truthy p = (case pid p of None \<Rightarrow> False | Some n \<Rightarrow> 0 < n)"

fun has_pid :: "proc option \<Rightarrow> bool" where
  "has_pid None = False"
| "has_pid (Some p) = pid_truthy p"

subsection \<open>\<open>startServer\<close>\<close>

definition getServerExecutable :: "platform \<Rightarrow> string" where
  "getServerExecutable pf = (case pf of Win32 \<Rightarrow> ''DayZServer_x64.exe'' | Posix \<Rightarrow> ''DayZServer'')"

definition starts_with :: "string \<Rightarrow> string \<Rightarrow> bool" where
  "starts_with p x = (take (length p) x = p)"

definition build_args :: "string \<Rightarrow> string list \<Rightarrow> string list" where
  "build_args profileName parameters =
     [''-config=serverDZ.cfg'', ''-profiles='' @ profileName, ''-dologs'', ''-adminlog'',
      ''-netlog'']
     @ filter (\<lambda>param. \<not> starts_with ''-profiles='' param) parameters"

text \<open>
  The \<open>catch\<close> block of \<open>startServer\<close>: it clears \<open>isRunning\<close>, and when a handle is held it
  calls \<open>kill()\<close> on it (the default signal is \<open>SIGTERM\<close>; an exception of \<open>kill\<close> is ignored)
  and forgets it; then it throws "Failed to start server".
\<close>

definition start_failed :: "start_failure \<Rightarrow> server_control \<Rightarrow> sc_effect list \<Rightarrow> (sc_error + nat) \<times> server_control \<times> sc_effect list" where
  "start_failed why s fx =
     (case serverProcess s of
        None \<Rightarrow> (Inl (StartFailed why), s\<lparr>isRunning := False\<rparr>, fx)
      | Some p \<Rightarrow>
          (Inl (StartFailed why), s\<lparr>isRunning := False, serverProcess := None\<rparr>,
           fx @ [Kill (pid p) SIGTERM]))"

text \<open>
  \<open>startServer\<close>. The two guards at the top throw outside the \<open>try\<close> block and leave the
  object as it is. Every later failure goes through the \<open>catch\<close> block. On success the
  call stores the path, sets \<open>isRunning\<close>, starts monitoring and returns the pid.
\<close>

definition startServer :: "platform \<Rightarrow> sc_env \<Rightarrow> string \<Rightarrow> string \<Rightarrow> string list \<Rightarrow> server_control \<Rightarrow> (sc_error + nat) \<times> server_control \<times> sc_effect list" where
  "startServer pf env path profileName parameters s =
     (if isRunning s then (Inl ServerAlreadyRunning, s, [])
      else if has_pid (serverProcess s) then (Inl ServerProcessExists, s, [])
      else if \<not> pathExists env then start_failed PathNotFound s []
      else if \<not> ensureDirOk env then start_failed EnsureDirFailed s []
      else if \<not> exeExists env then
        (if readdirOk env then start_failed ExecutableNotFound s []
         else start_failed ReaddirFailed s [])
      else if \<not> spawnOk env then start_failed SpawnThrew s []
      else
        (let fx = [Spawn path (getServerExecutable pf) (build_args profileName parameters)];
             s1 = s\<lparr>serverProcess := Some (spawned env)\<rparr>
         in case grace env of
              SpawnErrorEvent \<Rightarrow>
                start_failed SpawnFailed (s1\<lparr>isRunning := False, serverProcess := None\<rparr>) fx
            | HandleCleared \<Rightarrow>
                start_failed ProcessNull (s1\<lparr>isRunning := False, serverProcess := None\<rparr>) fx
            | NoEvent \<Rightarrow>
                if killed (spawned env) then start_failed KilledAfterStart s1 fx
                else
                  (case pid (spawned env) of
                     None \<Rightarrow> start_failed NoPid s1 fx
                   | Some n \<Rightarrow>
                       if n = 0 then start_failed NoPid s1 fx
                       else (Inr n,
                             s1\<lparr>serverPath := Some path, isRunning := True,
                                monitoringInterval := True\<rparr>,
                             fx))))"

subsection \<open>\<open>stopServer\<close>, its timer, \<open>restartServer\<close> and \<open>getServerStatus\<close>\<close>

text \<open>
  \<open>stopServer\<close> throws when \<open>!this.isRunning || !this.serverProcess\<close>. Otherwise it stops
  monitoring and, on Windows, runs \<open>taskkill\<close> on the pid; elsewhere it sends \<open>SIGTERM\<close>
  through the handle and sets a timer of 5000 ms. Then it clears \<open>isRunning\<close> and
  \<open>serverProcess\<close> and returns. An exception of \<open>exec\<close> or \<open>kill\<close> reaches the \<open>catch\<close> block,
  which throws "Failed to stop server".
\<close>

definition stopServer :: "platform \<Rightarrow> sc_env \<Rightarrow> server_control \<Rightarrow> (sc_error + unit) \<times> server_control \<times> sc_effect list" where
  "stopServer pf env s =
     (if \<not> isRunning s then (Inl ServerNotRunning, s, [])
      else
        (case serverProcess s of
           None \<Rightarrow> (Inl ServerNotRunning, s, [])
         | Some p \<Rightarrow>
             (let s1 = s\<lparr>monitoringInterval := False\<rparr> in
              if \<not> killOk env then (Inl StopFailed, s1, [])
              else
                (Inr (), s1\<lparr>isRunning := False, serverProcess := None\<rparr>,
                 case pf of
                   Win32 \<Rightarrow> [Taskkill (pid p)]
                 | Posix \<Rightarrow> [Kill (pid p) SIGTERM, SetTimeout 5000]))))"

text \<open>
  The callback of that timer, run on the supervisor as it is when the timer fires:
  \<open>if (this.serverProcess && !this.serverProcess.killed) this.serverProcess.kill('SIGKILL')\<close>.
\<close>

definition sigkill_timer :: "server_control \<Rightarrow> sc_effect list" where
  "sigkill_timer s =
     (case serverProcess s of
        None \<Rightarrow> []
      | Some p \<Rightarrow> if killed p then [] else [Kill (pid p) SIGKILL])"

datatype restart_result = RestartScheduled int | Restarted nat

text \<open>
  \<open>restartServer\<close>: with a positive countdown it only acknowledges; otherwise it stops a
  running server, waits two seconds and starts the server.
\<close>

definition restartServer :: "platform \<Rightarrow> sc_env \<Rightarrow> string \<Rightarrow> string \<Rightarrow> string list \<Rightarrow> int \<Rightarrow> server_control \<Rightarrow> (sc_error + restart_result) \<times> server_control \<times> sc_effect list" where
  "restartServer pf env path profileName parameters countdownSeconds s =
     (if 0 < countdownSeconds then (Inr (RestartScheduled countdownSeconds), s, [])
      else if isRunning s then
        (case stopServer pf env s of
           (Inl e, s1, fx1) \<Rightarrow> (Inl e, s1, fx1)
         | (Inr _, s1, fx1) \<Rightarrow>
             (case startServer pf env path profileName parameters s1 of
                (Inl e, s2, fx2) \<Rightarrow> (Inl e, s2, fx1 @ fx2)
              | (Inr n, s2, fx2) \<Rightarrow> (Inr (Restarted n), s2, fx1 @ fx2)))
      else
        (case startServer pf env path profileName parameters s of
           (Inl e, s2, fx2) \<Rightarrow> (Inl e, s2, fx2)
         | (Inr n, s2, fx2) \<Rightarrow> (Inr (Restarted n), s2, fx2)))"

record server_status =
  st_isRunning :: bool
  st_pid :: "nat option"

definition getServerStatus :: "server_control \<Rightarrow> server_status" where
  "getServerStatus s =
     \<lparr>st_isRunning = isRunning s,
      st_pid = (case serverProcess s of None \<Rightarrow> None | Some p \<Rightarrow> pid p)\<rparr>"

subsection \<open>Scheduled restarts\<close>

definition scheduleRestart :: "string \<Rightarrow> int option \<Rightarrow> string \<Rightarrow> string \<Rightarrow> string list \<Rightarrow> server_control \<Rightarrow> scheduled_restart \<times> server_control" where
  "scheduleRestart newId time path profileName parameters s =
     (let restart = \<lparr>sr_id = newId, sr_time = time, sr_serverPath = path,
                      sr_profileName = profileName, sr_parameters = parameters,
                      executed = False\<rparr>
      in (restart, s\<lparr>scheduledRestarts := scheduledRestarts s @ [restart]\<rparr>))"

definition cancelScheduledRestart :: "string \<Rightarrow> server_control \<Rightarrow> server_control" where
  "cancelScheduledRestart rid s =
     s\<lparr>scheduledRestarts := filter (\<lambda>r. sr_id r \<noteq> rid) (scheduledRestarts s)\<rparr>"

definition getScheduledRestarts :: "server_control \<Rightarrow> scheduled_restart list" where
  "getScheduledRestarts s = filter (\<lambda>r. \<not> executed r) (scheduledRestarts s)"

text \<open>
  \<open>new Date(restart.time) <= now\<close>, with times in milliseconds; an invalid date
  (\<open>None\<close>) compares false.
\<close>

definition due :: "int \<Rightarrow> scheduled_restart \<Rightarrow> bool" where
  "due now r = (case sr_time r of None \<Rightarrow> False | Some t \<Rightarrow> t \<le> now)"

text \<open>
  The \<open>for\<close> loop of \<open>checkScheduledRestarts\<close> over the entries from index \<open>i\<close> on. An entry
  that is not yet executed and is due gets its flag set, and if the server is running
  \<open>restartServer\<close> is called with the entry's parameters and awaited; \<open>world j\<close> is the
  environment that call meets for the entry at index \<open>j\<close>. When that call throws, the
  exception leaves the loop and the function: the result is then the index and the
  error, and the entries behind are not looked at.
\<close>

fun check_loop :: "platform \<Rightarrow> (nat \<Rightarrow> sc_env) \<Rightarrow> int \<Rightarrow> nat \<Rightarrow> scheduled_restart list \<Rightarrow> server_control \<Rightarrow> (nat \<times> sc_error) option \<times> scheduled_restart list \<times> server_control \<times> sc_effect list" where
  "check_loop pf world now i [] s = (None, [], s, [])"
| "check_loop pf world now i (r # rs) s =
     (if \<not> executed r \<and> due now r then
        (if isRunning s then
           (case restartServer pf (world i) (sr_serverPath r) (sr_profileName r)
                   (sr_parameters r) 0 s of
              (Inl e, s1, fx1) \<Rightarrow>
                (Some (i, e), r\<lparr>executed := True\<rparr> # rs, s1, RestartEntry i # fx1)
            | (Inr _, s1, fx1) \<Rightarrow>
                (case check_loop pf world now (Suc i) rs s1 of
                   (res, rs', s2, fx2) \<Rightarrow>
                     (res, r\<lparr>executed := True\<rparr> # rs', s2, RestartEntry i # fx1 @ fx2)))
         else
           (case check_loop pf world now (Suc i) rs s of
              (res, rs', s2, fx2) \<Rightarrow> (res, r\<lparr>executed := True\<rparr> # rs', s2, fx2)))
      else
        (case check_loop pf world now (Suc i) rs s of
           (res, rs', s2, fx2) \<Rightarrow> (res, r # rs', s2, fx2)))"

definition checkScheduledRestarts :: "platform \<Rightarrow> (nat \<Rightarrow> sc_env) \<Rightarrow> int \<Rightarrow> server_control \<Rightarrow> (nat \<times> sc_error) option \<times> server_control \<times> sc_effect list" where
  "checkScheduledRestarts pf world now s =
     (case check_loop pf world now 0 (scheduledRestarts s) s of
        (res, rs', s', fx) \<Rightarrow> (res, s'\<lparr>scheduledRestarts := rs'\<rparr>, fx))"

text \<open>Whether a call with result \<open>res\<close> got as far as the entry at index \<open>k\<close>.\<close>

fun reached :: "(nat \<times> sc_error) option \<Rightarrow> nat \<Rightarrow> bool" where
  "reached None k = True"
| "reached (Some (j, e)) k = (k \<le> j)"

text \<open>
  The environments in which a start from a stopped supervisor succeeds: the server path
  and the executable exist, the profile directory can be made, \<open>spawn\<close> returns an object
  with a pid, and during the 500 ms wait the process's \<open>error\<close> event does not fire and
  no callback armed earlier clears \<open>serverProcess\<close> or kills the new process.
\<close>

definition valid_env :: "sc_env \<Rightarrow> bool" where
  "valid_env env =
     (pathExists env \<and> ensureDirOk env \<and> exeExists env \<and> spawnOk env
      \<and> grace env = NoEvent \<and> \<not> killed (spawned env) \<and> pid_truthy (spawned env))"


text \<open>
  What a pass of the loop does to an entry it looks at, and the effects that are calls of
  \<open>restartServer\<close> for a registry entry.
\<close>

definition mark :: "int \<Rightarrow> scheduled_restart \<Rightarrow> scheduled_restart" where
  "mark now r = (if \<not> executed r \<and> due now r then r\<lparr>executed := True\<rparr> else r)"

fun is_restart_entry :: "sc_effect \<Rightarrow> bool" where
  "is_restart_entry (RestartEntry _) = True"
| "is_restart_entry _ = False"


section \<open>Example inputs\<close>

text \<open>Providers used in the examples of the mod queue.\<close>


definition run_ok :: "int list \<Rightarrow> member_run" where
  "run_ok ps =
     \<lparr>subProgress = ps, download = Success, details = DetailsNoName,
      addModThrows = False, addModRetryThrows = None\<rparr>"



definition two_members :: "nat \<Rightarrow> member_run" where
  "two_members i = (if i = 0 then run_ok [10] else run_ok [50])"

text \<open>
  Three downloads succeed; for the second, \<open>getModDetails\<close> throws and the fallback
  \<open>addMod\<close> throws too.
\<close>

definition three_ok_one_unregistered :: "nat \<Rightarrow> member_run" where
  "three_ok_one_unregistered i =
     (if i = 1 then (run_ok [])\<lparr>details := DetailsThrew, addModRetryThrows := Some ''EACCES''\<rparr>
      else run_ok [])"

text \<open>
  A run of the queue: mod \<open>111\<close> is added (the loop starts), the server path is set, mod
  \<open>112\<close> is added, and the loop takes its first item.
\<close>

definition cfg_one_added :: mq_config where
  "cfg_one_added = snd (addToQueue 1 ''111'' False None (new_queue, []))"

definition cfg_two_added :: mq_config where
  "cfg_two_added =
     snd (addToQueue 2 ''112'' False None
            (setServerPath (Some ''/srv'') (fst cfg_one_added), snd cfg_one_added))"

definition cfg_first_picked :: mq_config where
  "cfg_first_picked = (fst (loop_head (fst cfg_two_added)), [Running 0])"

text \<open>
  A supervisor with a running server (pid 4242), an environment in which a start
  succeeds with pid 5000, and one in which the server path does not exist.
\<close>

definition running_server :: server_control where
  "running_server =
     \<lparr>serverProcess = Some \<lparr>pid = Some 4242, killed = False\<rparr>,
      serverPath = Some ''/srv/dayz'', isRunning = True, monitoringInterval = True,
      scheduledRestarts = []\<rparr>"

definition good_env :: sc_env where
  "good_env =
     \<lparr>pathExists = True, ensureDirOk = True, exeExists = True, readdirOk = True,
      spawnOk = True, spawned = \<lparr>pid = Some 5000, killed = False\<rparr>, grace = NoEvent,
      killOk = True\<rparr>"

definition missing_path_env :: sc_env where
  "missing_path_env = good_env\<lparr>pathExists := False\<rparr>"

text \<open>
  The running server is stopped, which arms the 5000 ms timer; a start then fails because
  the executable is missing; and a further start meets an environment where everything
  exists and the spawn succeeds, but the armed timer fires during the wait and kills the
  new process.
\<close>

definition missing_exe_env :: sc_env where
  "missing_exe_env = good_env\<lparr>exeExists := False\<rparr>"

definition killed_in_wait_env :: sc_env where
  "killed_in_wait_env = good_env\<lparr>spawned := \<lparr>pid = Some 5000, killed = True\<rparr>\<rparr>"

definition stopped_with_timer :: server_control where
  "stopped_with_timer = fst (snd (stopServer Posix good_env running_server))"

definition after_missing_exe :: server_control where
  "after_missing_exe =
     fst (snd (startServer Posix missing_exe_env ''/srv/dayz'' ''default'' []
                 stopped_with_timer))"

text \<open>
  Two registry entries with trigger times 1000 and 1500, the worlds in which every
  restart meets the good environment or the missing path, and the running supervisor
  with both entries or with the first one.
\<close>

definition entry_a :: scheduled_restart where
  "entry_a =
     \<lparr>sr_id = ''1700000000000'', sr_time = Some 1000, sr_serverPath = ''/srv/dayz'',
      sr_profileName = ''default'', sr_parameters = [], executed = False\<rparr>"

definition entry_b :: scheduled_restart where
  "entry_b =
     \<lparr>sr_id = ''1700000000001'', sr_time = Some 1500, sr_serverPath = ''/srv/dayz'',
      sr_profileName = ''default'', sr_parameters = [], executed = False\<rparr>"

definition world_good :: "nat \<Rightarrow> sc_env" where
  "world_good i = good_env"

definition world_missing_path :: "nat \<Rightarrow> sc_env" where
  "world_missing_path i = missing_path_env"

definition running_two_due :: server_control where
  "running_two_due = running_server\<lparr>scheduledRestarts := [entry_a, entry_b]\<rparr>"

definition running_one_due :: server_control where
  "running_one_due = running_server\<lparr>scheduledRestarts := [entry_a]\<rparr>"


section \<open>Properties of the RCON client\<close>

lemma getNextRequestId_value:
  "fst (getNextRequestId s) = (requestId s + 1) mod (2 ^ 32 - 1)"
  by (simp add: getNextRequestId_def Let_def)

lemma disconnect_calls_no_callback:
  "e \<in> set (snd (disconnect s)) \<Longrightarrow> \<not> settles rid e"
  by (cases e) (auto simp: disconnect_def split: if_splits)

lemma onSocketError_rejects_all:
  "(rid, k) \<in> set (pendingRequests s) \<Longrightarrow>
     CallReject rid ConnectionError \<in> set (snd (onSocketError s))"
  by (force simp: onSocketError_def)

text \<open>
  Claim C1. \<open>disconnect()\<close> should reject each of the N pending requests with a
  connection-closed error. The code does not: with two commands in flight (ids 2 and 3),
  \<open>disconnect\<close> closes the socket, clears the flag and empties the map, and the only effect
  is the closing of the socket; neither callback of either request is called. Each
  promise stays pending until its own timer rejects it with the timeout error. The
  handler of the socket's \<open>error\<close> event, in the same state, rejects both at once.
\<close>

theorem disconnect_drops_pending:
  "(let (_, s1, _) = sendCommand ''#players'' connected_session;
        (_, s2, _) = sendCommand ''#say hi'' s1
    in map fst (pendingRequests s2) = [2, 3]
     \<and> disconnect s2
         = (\<lparr>socket = False, isConnected = False, requestId = 3, pendingRequests = []\<rparr>,
            [SocketClose])
     \<and> snd (onCommandTimeout 2 (fst (disconnect s2))) = [TimeoutReject 2 CommandTimeout]
     \<and> snd (onSocketError s2)
         = [CallReject 2 ConnectionError, CallReject 3 ConnectionError])"
  by (simp add: sendCommand_def getNextRequestId_def connected_session_def
      disconnect_def onSocketError_def onCommandTimeout_def Let_def)

text \<open>
  Claim C4. The next request id should be \<open>(c + 1) mod 2^32\<close>. The code reduces modulo
  \<open>0xFFFFFFFF = 2^32 - 1\<close>: from the counter \<open>c = 4294967294\<close> the allocator returns 0,
  where \<open>(c + 1) mod 2^32 = 4294967295\<close>.
\<close>

theorem getNextRequestId_wraps_early:
  "fst (getNextRequestId (connected_session\<lparr>requestId := 4294967294\<rparr>)) = 0
   \<and> (4294967294 + 1) mod 2 ^ 32 = (4294967295 :: nat)"
  by (simp add: getNextRequestId_def connected_session_def Let_def)


section \<open>Properties of the mod download queue\<close>

subsection \<open>Clearing finished items\<close>

lemma status_keep_cases:
  "(st \<noteq> Completed \<and> st \<noteq> Failed) = (st = Pending \<or> st = Downloading)"
  by (cases st) simp_all

text \<open>
  Claim C10. \<open>clearCompleted\<close> changes nothing but the queue array; the new array is the
  old one, in its order, without the items whose status is \<open>completed\<close> or \<open>failed\<close>, so
  exactly the \<open>pending\<close> and \<open>downloading\<close> items stay; and the number it returns is the
  number of \<open>completed\<close> and \<open>failed\<close> items the old array held. The operation has no
  failing branch: \<open>clearCompleted\<close> returns a count for every queue.
\<close>

theorem clearCompleted_removes_terminal:
  "snd (clearCompleted s)
     = s\<lparr>queue := filter (\<lambda>r. status (heap s r) = Pending \<or> status (heap s r) = Downloading)
                     (queue s)\<rparr>
   \<and> fst (clearCompleted s)
     = length (filter (\<lambda>r. status (heap s r) = Completed \<or> status (heap s r) = Failed)
                 (queue s))"
proof -
  have k: "keeps s = (\<lambda>r. status (heap s r) = Pending \<or> status (heap s r) = Downloading)"
    by (rule ext) (simp add: keeps_def status_keep_cases)
  have c: "(\<lambda>r. status (heap s r) = Completed \<or> status (heap s r) = Failed)
             = (\<lambda>r. \<not> keeps s r)"
    by (rule ext) (simp add: keeps_def)
  have "length (queue s) - length (filter (keeps s) (queue s))
          = length (filter (\<lambda>r. \<not> keeps s r) (queue s))"
    using sum_length_filter_compl [of "keeps s" "queue s"] by simp
  then show ?thesis
    unfolding c by (simp add: clearCompleted_def Let_def k)
qed

subsection \<open>Collections\<close>

lemma registrationError_escapes:
  "(registrationError m \<noteq> None) = registration_escapes m"
  by (simp add: registrationError_def registration_escapes_def)

lemma member_step_counts:
  "member_step tot provider (sc, fc, reps) i
     = (sc + (if member_succeeded (provider i) then 1 else 0),
        fc + (if member_failed (provider i) then 1 else 0),
        reps @ member_reports tot i (provider i))"
proof (cases "download (provider i)")
  case Success
  show ?thesis
  proof (cases "registrationError (provider i)")
    case None
    with Success registrationError_escapes [of "provider i"] show ?thesis
      by (simp add: member_step_def member_succeeded_def member_failed_def Let_def)
  next
    case (Some msg)
    with Success registrationError_escapes [of "provider i"] show ?thesis
      by (simp add: member_step_def member_succeeded_def member_failed_def Let_def)
  qed
next
  case (Unsuccessful e)
  then show ?thesis
    by (simp add: member_step_def member_succeeded_def member_failed_def Let_def)
next
  case (Threw msg)
  then show ?thesis
    by (simp add: member_step_def member_succeeded_def member_failed_def Let_def)
qed

lemma member_loop_counts:
  "fst (member_loop tot provider i k (sc, fc, reps))
     = sc + length (filter (\<lambda>j. member_succeeded (provider j)) [i..<i + k])
   \<and> fst (snd (member_loop tot provider i k (sc, fc, reps)))
     = fc + length (filter (\<lambda>j. member_failed (provider j)) [i..<i + k])"
proof (induction k arbitrary: i sc fc reps)
  case 0
  show ?case by simp
next
  case (Suc k)
  have u: "[i..<i + Suc k] = i # [Suc i..<Suc i + k]"
    by (simp add: upt_conv_Cons)
  show ?case
    unfolding member_loop.simps member_step_counts u
    using Suc.IH [of "Suc i"] by simp
qed

lemma process_collection_counts:
  "fst (snd (process_collection provider ids it))
     = count_members member_succeeded provider (length ids)
   \<and> fst (snd (snd (process_collection provider ids it)))
     = count_members member_failed provider (length ids)"
proof -
  obtain sc fc reps where
    m: "member_loop (length ids) provider 0 (length ids) (0, 0, []) = (sc, fc, reps)"
    by (cases "member_loop (length ids) provider 0 (length ids) (0, 0, [])") auto
  from member_loop_counts [of "length ids" provider 0 "length ids" 0 0 "[]"] m
  show ?thesis by (simp add: process_collection_def count_members_def Let_def)
qed

lemma process_item_collection:
  assumes "isCollection it" and "modIds it = Some ids" and "or_else path [] \<noteq> []"
  shows "fst (process_item path provider it)
           = finish_collection (length ids)
               (count_members member_succeeded provider (length ids))
               (count_members member_failed provider (length ids)) it"
proof -
  obtain it' sc fc reports where r: "process_collection provider ids it = (it', sc, fc, reports)"
    by (cases "process_collection provider ids it") auto
  with process_collection_counts [of provider ids it]
  have sc: "sc = count_members member_succeeded provider (length ids)"
    and fc: "fc = count_members member_failed provider (length ids)" by simp_all
  have "it' = finish_collection (length ids) sc fc it"
    using r by (auto simp: process_collection_def Let_def split: prod.splits)
  moreover have "fst (process_item path provider it) = it'"
    using assms r by (simp add: process_item_def)
  ultimately show ?thesis using sc fc by simp
qed



text \<open>
  Where a registration fails after its download, the member counts on both sides: three
  members give 3 successes and 1 failure, and the error text says so.
\<close>

lemma collection_double_count:
  "count_members member_succeeded three_ok_one_unregistered 3 = 3
   \<and> count_members member_failed three_ok_one_unregistered 3 = 1
   \<and> status (fst (process_item (Some ''/srv'') three_ok_one_unregistered
             (new_collection_item 222 ''222'' None None [''1'', ''2'', ''3''])))
     = Completed
   \<and> error (fst (process_item (Some ''/srv'') three_ok_one_unregistered
             (new_collection_item 222 ''222'' None None [''1'', ''2'', ''3''])))
     = Some ''3 succeeded, 1 failed''"
proof -
  let ?ids = "[''1'', ''2'', ''3'']"
  let ?it = "new_collection_item 222 ''222'' None None ?ids"
  have s: "count_members member_succeeded three_ok_one_unregistered (length ?ids) = 3"
    and f: "count_members member_failed three_ok_one_unregistered (length ?ids) = 1"
    by code_simp+
  have "isCollection ?it" and "modIds ?it = Some ?ids" and "or_else (Some ''/srv'') [] \<noteq> []"
    by (simp_all add: new_collection_item_def)
  from process_item_collection [OF this, of three_ok_one_unregistered]
  have "fst (process_item (Some ''/srv'') three_ok_one_unregistered ?it)
          = finish_collection (length ?ids) 3 1 ?it"
    unfolding s f .
  moreover have "show_nat 3 = ''3''" and "show_nat 1 = ''1''"
    by code_simp+
  moreover have "count_members member_succeeded three_ok_one_unregistered 3 = 3"
    and "count_members member_failed three_ok_one_unregistered 3 = 1"
    by code_simp+
  ultimately show ?thesis by (simp add: finish_collection_def)
qed

lemma member_reports_binary64: "member_reports 6 1 (run_ok [5]) = [33, 17]"
  by code_simp

text \<open>
  Claim C5. Every reported progress value should be the share of the completed members
  plus the share of the member in flight, and the reported values should never decrease.
  For a collection of two members whose downloads report 10 and 50 percent, the code
  reports 50, 5, 100, 75: before each download it sets the progress from \<open>i + 1\<close>, as if
  the member about to start were complete (50 where no member is complete and none is in
  flight), and the callback then computes from \<open>i\<close>, so the value falls back from 50 to 5
  and from 100 to 75.
\<close>

theorem collection_progress_falls_back:
  "snd (process_item (Some ''/srv'') two_members
          (new_collection_item 222 ''222'' None None [''1'', ''2'']))
     = [50, 5, 100, 75]"
  by code_simp


subsection \<open>At most one item is downloading\<close>

lemma phase_preserved:
  assumes "phase s ls" and "isProcessing s' = isProcessing s"
    and "none_downloading s \<Longrightarrow> none_downloading s'"
    and "\<And>x. only_downloading x s \<Longrightarrow> only_downloading x s'"
  shows "phase s' ls"
  using assms by (induction s ls rule: phase.induct) simp_all

lemma phase_single:
  assumes "phase s ls" and "k < length ls"
  shows "k = 0 \<and> ls = [ls ! k]"
  using assms by (induction s ls rule: phase.induct) simp_all

lemma inv_init: "mq_inv (new_queue, [])"
  by (simp add: mq_inv_def well_allocated_def none_downloading_def new_queue_def)

lemma push_well_allocated: "well_allocated s \<Longrightarrow> well_allocated (push_item it s)"
  by (auto simp: well_allocated_def push_item_def)

lemma push_none:
  "well_allocated s \<Longrightarrow> status it = Pending \<Longrightarrow> none_downloading s
   \<Longrightarrow> none_downloading (push_item it s)"
  by (auto simp: well_allocated_def none_downloading_def push_item_def)

lemma push_only:
  "well_allocated s \<Longrightarrow> status it = Pending \<Longrightarrow> only_downloading x s
   \<Longrightarrow> only_downloading x (push_item it s)"
  by (auto simp: well_allocated_def only_downloading_def push_item_def)

lemma processing_none [simp]:
  "none_downloading (s\<lparr>isProcessing := b\<rparr>) = none_downloading s"
  by (simp add: none_downloading_def)

lemma processing_well [simp]:
  "well_allocated (s\<lparr>isProcessing := b\<rparr>) = well_allocated s"
  by (simp add: well_allocated_def)

lemma inv_push:
  assumes "mq_inv (s, ls)" and "status it = Pending"
  shows "mq_inv (if isProcessing (push_item it s) then (push_item it s, ls)
                 else processQueue (push_item it s, ls))"
proof -
  have w: "well_allocated s" and ph: "phase s ls" using assms(1) by (simp_all add: mq_inv_def)
  have p: "isProcessing (push_item it s) = isProcessing s" by (simp add: push_item_def)
  have ph': "phase (push_item it s) ls"
    using ph p push_none [OF w assms(2)] push_only [OF w assms(2)] by (rule phase_preserved)
  show ?thesis
  proof (cases "isProcessing s")
    case True
    then show ?thesis using ph' push_well_allocated [OF w] by (simp add: mq_inv_def p)
  next
    case False
    then have "ls = []" using ph by (induction s ls rule: phase.induct) simp_all
    then show ?thesis
      using False ph' push_well_allocated [OF w] by (simp add: mq_inv_def p processQueue_def)
  qed
qed

lemma inv_add:
  assumes "mq_inv c"
  shows "mq_inv (snd (addToQueue newId wid isColl nm c))"
proof (cases c)
  case (Pair s ls)
  have "status (new_mod_item newId wid isColl nm) = Pending"
    by (simp add: new_mod_item_def)
  from inv_push [OF assms [unfolded Pair] this] show ?thesis
    by (simp add: Pair addToQueue_def Let_def)
qed

lemma inv_addCollection:
  assumes "mq_inv c"
  shows "mq_inv (snd (addCollectionToQueue newId cid nm coll c))"
proof (cases c)
  case (Pair s ls)
  have p: "status (new_collection_item newId cid nm cn l) = Pending" for cn l
    by (simp add: new_collection_item_def)
  show ?thesis
    using assms inv_push [OF assms [unfolded Pair] p]
    by (simp add: Pair addCollectionToQueue_def Let_def split: option.splits prod.splits)
qed


lemma find_SomeD: "find P xs = Some x \<Longrightarrow> P x \<and> x \<in> set xs"
  by (induction xs) (auto split: if_splits)

lemma find_NoneD: "find P xs = None \<Longrightarrow> x \<in> set xs \<Longrightarrow> \<not> P x"
  by (induction xs) (auto split: if_splits)

lemma inv_subqueue:
  assumes "mq_inv (s, ls)" and "distinct q" and "set q \<subseteq> set (queue s)"
    and "\<And>r. r \<in> set (queue s) \<Longrightarrow> status (heap s r) = Downloading \<Longrightarrow> r \<in> set q"
  shows "mq_inv (s\<lparr>queue := q\<rparr>, ls)"
proof -
  have w: "well_allocated s" and ph: "phase s ls" using assms(1) by (simp_all add: mq_inv_def)
  have w': "well_allocated (s\<lparr>queue := q\<rparr>)"
    using w assms(2,3) by (auto simp: well_allocated_def)
  have n: "none_downloading s \<Longrightarrow> none_downloading (s\<lparr>queue := q\<rparr>)"
    using assms(3) by (auto simp: none_downloading_def)
  have o: "only_downloading x s \<Longrightarrow> only_downloading x (s\<lparr>queue := q\<rparr>)" for x
    using assms(3,4) by (auto simp: only_downloading_def)
  have "phase (s\<lparr>queue := q\<rparr>) ls"
    using ph _ n o by (rule phase_preserved) simp
  with w' show ?thesis by (simp add: mq_inv_def)
qed

lemma inv_remove:
  assumes "mq_inv (s, ls)"
  shows "mq_inv (snd (removeFromQueue itemId s), ls)"
proof (cases "find (\<lambda>r. item_id (heap s r) = itemId) (queue s)")
  case None
  with assms show ?thesis by (simp add: removeFromQueue_def)
next
  case (Some r)
  show ?thesis
  proof (cases "status (heap s r) = Downloading")
    case True
    with assms Some show ?thesis by (simp add: removeFromQueue_def)
  next
    case False
    have d: "distinct (queue s)" using assms by (simp add: mq_inv_def well_allocated_def)
    have "mq_inv (s\<lparr>queue := remove1 r (queue s)\<rparr>, ls)"
    proof (rule inv_subqueue [OF assms])
      show "distinct (remove1 r (queue s))" using d by simp
      show "set (remove1 r (queue s)) \<subseteq> set (queue s)" by (rule set_remove1_subset)
      fix x assume "x \<in> set (queue s)" and "status (heap s x) = Downloading"
      with False d show "x \<in> set (remove1 r (queue s))" by (auto simp: set_remove1_eq)
    qed
    with Some False show ?thesis by (simp add: removeFromQueue_def)
  qed
qed

lemma inv_clearCompleted:
  assumes "mq_inv (s, ls)"
  shows "mq_inv (snd (clearCompleted s), ls)"
proof -
  have d: "distinct (queue s)" using assms by (simp add: mq_inv_def well_allocated_def)
  have "mq_inv (s\<lparr>queue := filter (keeps s) (queue s)\<rparr>, ls)"
  proof (rule inv_subqueue [OF assms])
    show "distinct (filter (keeps s) (queue s))" using d by simp
    show "set (filter (keeps s) (queue s)) \<subseteq> set (queue s)" by simp
    fix x assume "x \<in> set (queue s)" and "status (heap s x) = Downloading"
    then show "x \<in> set (filter (keeps s) (queue s))" by (simp add: keeps_def)
  qed
  then show ?thesis by (simp add: clearCompleted_def Let_def)
qed

lemma inv_clearAll:
  assumes "mq_inv (s, ls)"
  shows "mq_inv (snd (clearAll s), ls)"
proof (cases "isProcessing s")
  case True
  with assms show ?thesis by (simp add: clearAll_def)
next
  case False
  have "phase s ls" using assms by (simp add: mq_inv_def)
  with False have "ls = []" by (induction s ls rule: phase.induct) simp_all
  with False show ?thesis
    by (simp add: clearAll_def mq_inv_def well_allocated_def none_downloading_def)
qed

lemma inv_setServerPath:
  assumes "mq_inv (s, ls)"
  shows "mq_inv (setServerPath p s, ls)"
proof -
  have w: "well_allocated s" and ph: "phase s ls" using assms by (simp_all add: mq_inv_def)
  have "phase (s\<lparr>mq_serverPath := p\<rparr>) ls"
    using ph by (rule phase_preserved) (simp_all add: none_downloading_def only_downloading_def)
  with w show ?thesis by (simp add: mq_inv_def setServerPath_def well_allocated_def)
qed


lemma pick_only:
  assumes "none_downloading s" and "r \<in> set (queue s)"
  shows "only_downloading r
           (s\<lparr>heap := (heap s)(r := (heap s r)\<lparr>status := Downloading\<rparr>),
              currentItem := Some r\<rparr>)"
  using assms by (auto simp: none_downloading_def only_downloading_def)

lemma loop_head_cases:
  "loop_head s = (s\<lparr>isProcessing := False\<rparr>, None)
   \<or> loop_head s = (s, Some AtHead)
   \<or> (\<exists>r. r \<in> set (queue s)
          \<and> loop_head s
              = (s\<lparr>heap := (heap s)(r := (heap s r)\<lparr>status := Downloading\<rparr>),
                   currentItem := Some r\<rparr>, Some (Running r)))"
proof (cases "find (\<lambda>r. status (heap s r) = Pending) (queue s)")
  case None
  then show ?thesis by (simp add: loop_head_def split: option.splits)
next
  case (Some r)
  then have "r \<in> set (queue s)" by (simp add: find_SomeD)
  with Some show ?thesis by (auto simp: loop_head_def)
qed

lemma inv_loop_head:
  assumes "mq_inv (s, [AtHead])" and "loop_head s = (s', res)"
  shows "mq_inv (s', case res of None \<Rightarrow> [] | Some pc \<Rightarrow> [pc])"
proof -
  have w: "well_allocated s" and p: "isProcessing s" and n: "none_downloading s"
    using assms(1) by (simp_all add: mq_inv_def)
  consider
    (exit) "loop_head s = (s\<lparr>isProcessing := False\<rparr>, None)"
  | (wait) "loop_head s = (s, Some AtHead)"
  | (pick) r where "r \<in> set (queue s)"
      "loop_head s = (s\<lparr>heap := (heap s)(r := (heap s r)\<lparr>status := Downloading\<rparr>),
                        currentItem := Some r\<rparr>, Some (Running r))"
    using loop_head_cases [of s] by blast
  then show ?thesis
  proof cases
    case exit
    with assms(2) w n show ?thesis by (auto simp: mq_inv_def)
  next
    case wait
    with assms show ?thesis by auto
  next
    case pick
    with assms(2) w p pick_only [OF n pick(1)] show ?thesis
      by (auto simp: mq_inv_def well_allocated_def)
  qed
qed

lemma inv_head:
  assumes "mq_inv (s, ls)" and "k < length ls" and "ls ! k = AtHead"
    and "loop_head s = (s', Some pc)"
  shows "mq_inv (s', ls[k := pc])"
proof -
  have "phase s ls" using assms(1) by (simp add: mq_inv_def)
  from phase_single [OF this assms(2)] assms(3) have ls: "ls = [AtHead]" and k: "k = 0"
    by simp_all
  from inv_loop_head [OF assms(1) [unfolded ls] assms(4)] show ?thesis
    by (simp add: ls k)
qed

lemma inv_exit:
  assumes "mq_inv (s, ls)" and "k < length ls" and "ls ! k = AtHead"
    and "loop_head s = (s', None)"
  shows "mq_inv (s', take k ls @ drop (Suc k) ls)"
proof -
  have "phase s ls" using assms(1) by (simp add: mq_inv_def)
  from phase_single [OF this assms(2)] assms(3) have ls: "ls = [AtHead]" and k: "k = 0"
    by simp_all
  from inv_loop_head [OF assms(1) [unfolded ls] assms(4)] show ?thesis
    by (simp add: ls k)
qed

lemma inv_progress:
  assumes "mq_inv (s, ls)" and "k < length ls" and "ls ! k = Running r"
  shows "mq_inv (item_progress r p s, ls)"
proof -
  have w: "well_allocated s" and ph: "phase s ls" using assms(1) by (simp_all add: mq_inv_def)
  have "phase (item_progress r p s) ls"
    using ph
    by (rule phase_preserved)
      (auto simp: item_progress_def none_downloading_def only_downloading_def)
  with w show ?thesis by (simp add: mq_inv_def well_allocated_def item_progress_def)
qed

lemma finish_collection_terminal:
  "status (finish_collection tot sc fc it) \<noteq> Downloading"
  by (simp add: finish_collection_def)

lemma process_single_terminal:
  "status (fst (process_single provider it)) \<noteq> Downloading"
  by (cases "download (provider 0)"; cases "registrationError (provider 0)")
    (simp_all add: process_single_def Let_def)

lemma process_collection_terminal:
  "status (fst (process_collection provider ids it)) \<noteq> Downloading"
  using finish_collection_terminal
  by (simp add: process_collection_def Let_def split: prod.splits)

lemma process_item_terminal:
  "status (fst (process_item path provider it)) \<noteq> Downloading"
proof (cases "or_else path [] = []")
  case True
  then show ?thesis by (simp add: process_item_def)
next
  case False
  show ?thesis
  proof (cases "modIds it")
    case None
    with False show ?thesis by (simp add: process_item_def process_single_terminal)
  next
    case (Some ids)
    have "fst (case process_collection provider ids it of (it', _, _, reports) \<Rightarrow> (it', reports))
            = fst (process_collection provider ids it)"
      by (simp split: prod.splits)
    with False Some show ?thesis
      by (simp add: process_item_def process_single_terminal process_collection_terminal)
  qed
qed

lemma finish_none:
  assumes "only_downloading r s" and "status it' \<noteq> Downloading"
  shows "none_downloading (s\<lparr>heap := (heap s)(r := it'), currentItem := None\<rparr>)"
  using assms by (auto simp: none_downloading_def only_downloading_def)

lemma inv_finish:
  assumes "mq_inv (s, ls)" and "k < length ls" and "ls ! k = Running r"
  shows "mq_inv (item_finish path provider r s, ls[k := AtHead])"
proof -
  have w: "well_allocated s" and ph: "phase s ls" using assms(1) by (simp_all add: mq_inv_def)
  from phase_single [OF ph assms(2)] assms(3) have ls: "ls = [Running r]" and k: "k = 0"
    by simp_all
  have p: "isProcessing s" and o: "only_downloading r s" using ph by (simp_all add: ls)
  from finish_none [OF o process_item_terminal] w p show ?thesis
    by (simp add: mq_inv_def item_finish_def ls k well_allocated_def)
qed

lemma downloaded_none:
  assumes "only_downloading r s" and "status it' \<noteq> Downloading"
  shows "none_downloading (s\<lparr>heap := (heap s)(r := it')\<rparr>)"
  using assms by (auto simp: none_downloading_def only_downloading_def)

lemma inv_downloaded:
  assumes "mq_inv (s, ls)" and "k < length ls" and "ls ! k = Running r"
  shows "mq_inv (item_downloaded r s, ls[k := Registering r])"
proof -
  have w: "well_allocated s" and ph: "phase s ls" using assms(1) by (simp_all add: mq_inv_def)
  from phase_single [OF ph assms(2)] assms(3) have ls: "ls = [Running r]" and k: "k = 0"
    by simp_all
  have p: "isProcessing s" and o: "only_downloading r s" using ph by (simp_all add: ls)
  have t: "status ((heap s r)\<lparr>progress := 100, status := Completed\<rparr>) \<noteq> Downloading"
    by simp
  have n: "none_downloading (item_downloaded r s)"
    unfolding item_downloaded_def by (rule downloaded_none [OF o t])
  have w': "well_allocated (item_downloaded r s)"
    using w by (simp add: well_allocated_def item_downloaded_def)
  have p': "isProcessing (item_downloaded r s)"
    using p by (simp add: item_downloaded_def)
  have "phase (item_downloaded r s) [Registering r]" using n p' by simp
  with w' show ?thesis by (simp add: mq_inv_def ls k)
qed

lemma registered_none:
  assumes "none_downloading s"
  shows "none_downloading (item_registered err r s)"
proof (cases err)
  case None
  with assms show ?thesis by (simp add: none_downloading_def item_registered_def)
next
  case (Some msg)
  with assms show ?thesis by (auto simp: none_downloading_def item_registered_def)
qed

lemma inv_registered:
  assumes "mq_inv (s, ls)" and "k < length ls" and "ls ! k = Registering r"
  shows "mq_inv (item_registered err r s, ls[k := AtHead])"
proof -
  have w: "well_allocated s" and ph: "phase s ls" using assms(1) by (simp_all add: mq_inv_def)
  from phase_single [OF ph assms(2)] assms(3) have ls: "ls = [Registering r]" and k: "k = 0"
    by simp_all
  have p: "isProcessing s" and n: "none_downloading s" using ph by (simp_all add: ls)
  have w': "well_allocated (item_registered err r s)"
    using w by (cases err) (simp_all add: well_allocated_def item_registered_def)
  have p': "isProcessing (item_registered err r s)"
    using p by (cases err) (simp_all add: item_registered_def)
  have "phase (item_registered err r s) [AtHead]"
    using registered_none [OF n] p' by simp
  with w' show ?thesis by (simp add: mq_inv_def ls k)
qed

lemma inv_step:
  assumes "mq_step c c'" and "mq_inv c"
  shows "mq_inv c'"
  using assms
proof (induction rule: mq_step.induct)
  case (step_add c newId wid isColl nm)
  then show ?case by (rule inv_add)
next
  case (step_addCollection c newId cid nm coll)
  then show ?case by (rule inv_addCollection)
next
  case (step_remove s ls itemId)
  then show ?case by (rule inv_remove)
next
  case (step_clearCompleted s ls)
  then show ?case by (rule inv_clearCompleted)
next
  case (step_clearAll s ls)
  then show ?case by (rule inv_clearAll)
next
  case (step_setServerPath s ls p)
  then show ?case by (rule inv_setServerPath)
next
  case (step_head k ls s s' pc)
  from step_head(4,1,2,3) show ?case by (rule inv_head)
next
  case (step_exit k ls s s')
  from step_exit(4,1,2,3) show ?case by (rule inv_exit)
next
  case (step_progress k ls r s p)
  from step_progress(3,1,2) show ?case by (rule inv_progress)
next
  case (step_finish k ls r s path provider)
  from step_finish(3,1,2) show ?case by (rule inv_finish)
next
  case (step_downloaded k ls r s)
  from step_downloaded(3,1,2) show ?case by (rule inv_downloaded)
next
  case (step_registered k ls r s err)
  from step_registered(3,1,2) show ?case by (rule inv_registered)
qed

lemma reachable_inv: "reachable c \<Longrightarrow> mq_inv c"
  by (induction rule: reachable.induct) (auto intro: inv_init inv_step)

lemma inv_count:
  assumes "mq_inv (s, ls)"
  shows "count_status Downloading s \<le> 1"
proof -
  let ?d = "filter (\<lambda>r. status (heap s r) = Downloading) (queue s)"
  have d: "distinct ?d" using assms by (simp add: mq_inv_def well_allocated_def)
  have "phase s ls" using assms by (simp add: mq_inv_def)
  then have "\<exists>x. set ?d \<subseteq> {x}"
    by (induction s ls rule: phase.induct)
      (auto simp: none_downloading_def only_downloading_def)
  then obtain x where "set ?d \<subseteq> {x}" ..
  then have "card (set ?d) \<le> 1"
    using card_mono [of "{x}" "set ?d"] by simp
  with distinct_card [OF d] have "length ?d \<le> 1" by linarith
  then show ?thesis by (simp add: count_status_def)
qed

text \<open>
  Claim C9. In every state reachable from the empty queue by calls of the public
  operations (adding a mod or a collection, removing, clearing, setting the path) and
  steps of the processing loop, at most one queued item is downloading, and so the
  \<open>downloading\<close> count of every \<open>getQueueStatus\<close> snapshot is at most 1.
\<close>

theorem at_most_one_downloading:
  assumes "reachable c"
  shows "qs_downloading (getQueueStatus (fst c)) \<le> 1
       \<and> length (filter (\<lambda>r. status (heap (fst c) r) = Downloading) (queue (fst c))) \<le> 1"
  using inv_count [of "fst c" "snd c"] reachable_inv [OF assms]
  by (simp add: getQueueStatus_def count_status_def)

lemma cfg_two_added_eq:
  "snd cfg_two_added = [AtHead] \<and> queue (fst cfg_two_added) = [0, 1]
   \<and> status (heap (fst cfg_two_added) 0) = Pending"
  by (simp add: cfg_two_added_def cfg_one_added_def addToQueue_def processQueue_def
      push_item_def new_mod_item_def new_queue_def setServerPath_def Let_def)

lemma cfg_first_picked_reachable: "reachable cfg_first_picked"
proof -
  have 1: "reachable cfg_one_added"
    unfolding cfg_one_added_def by (rule reach_step [OF reach_init step_add])
  have "reachable (fst cfg_one_added, snd cfg_one_added)" using 1 by simp
  then have "reachable (setServerPath (Some ''/srv'') (fst cfg_one_added), snd cfg_one_added)"
    by (rule reach_step) (rule step_setServerPath)
  then have 2: "reachable cfg_two_added"
    unfolding cfg_two_added_def by (rule reach_step) (rule step_add)
  have h: "loop_head (fst cfg_two_added) = (fst (loop_head (fst cfg_two_added)), Some (Running 0))"
    using cfg_two_added_eq by (simp add: loop_head_def)
  have "mq_step (fst cfg_two_added, snd cfg_two_added)
          (fst (loop_head (fst cfg_two_added)), (snd cfg_two_added)[0 := Running 0])"
    using cfg_two_added_eq by (intro step_head [OF _ _ h]) simp_all
  then have "mq_step cfg_two_added
          (fst (loop_head (fst cfg_two_added)), (snd cfg_two_added)[0 := Running 0])"
    unfolding prod.collapse .
  then have "mq_step cfg_two_added cfg_first_picked"
    using cfg_two_added_eq by (simp add: cfg_first_picked_def)
  with 2 show ?thesis by (rule reach_step)
qed

theorem at_most_one_downloading_witness:
  "reachable cfg_first_picked
   \<and> qs_downloading (getQueueStatus (fst cfg_first_picked)) \<le> 1
   \<and> qs_downloading (getQueueStatus (fst cfg_first_picked)) = 1"
proof -
  have "qs_downloading (getQueueStatus (fst cfg_first_picked)) = 1"
    by (simp add: cfg_first_picked_def cfg_two_added_def cfg_one_added_def addToQueue_def
        processQueue_def push_item_def new_mod_item_def new_queue_def setServerPath_def
        loop_head_def getQueueStatus_def count_status_def Let_def)
  with at_most_one_downloading [OF cfg_first_picked_reachable] cfg_first_picked_reachable
  show ?thesis by simp
qed


section \<open>Properties of the server process supervisor\<close>

subsection \<open>Starting\<close>

lemma start_failed_result:
  "start_failed why s fx = (res, s', fx')
   \<Longrightarrow> res = Inl (StartFailed why) \<and> \<not> isRunning s' \<and> serverProcess s' = None"
  by (auto simp: start_failed_def split: option.splits)

lemma startServer_valid:
  assumes "valid_env env" and "\<not> isRunning s" and "serverProcess s = None"
  shows "\<exists>n s' fx. startServer pf env path profileName parameters s = (Inr n, s', fx)
           \<and> isRunning s' \<and> pid (spawned env) = Some n \<and> serverProcess s' = Some (spawned env)"
  using assms
  by (auto simp: startServer_def valid_env_def pid_truthy_def Let_def split: option.splits)

lemma startServer_returns:
  assumes "startServer pf env path profileName parameters s = (Inr n, s', fx)"
  shows "valid_env env \<and> isRunning s' \<and> serverProcess s' = Some (spawned env)
       \<and> pid (spawned env) = Some n"
proof -
  have g: "\<not> isRunning s" "\<not> has_pid (serverProcess s)"
    using assms by (auto simp: startServer_def split: if_splits)
  have e: "pathExists env" "ensureDirOk env" "exeExists env" "spawnOk env"
    using assms g by (auto simp: startServer_def start_failed_def split: if_splits option.splits)
  have w: "grace env = NoEvent"
    using assms g e
    by (cases "grace env") (auto simp: startServer_def start_failed_def Let_def split: option.splits)
  have k: "\<not> killed (spawned env)"
    using assms g e w by (auto simp: startServer_def start_failed_def Let_def split: option.splits)
  from assms g e w k show ?thesis
    by (auto simp: startServer_def start_failed_def valid_env_def pid_truthy_def Let_def
        split: option.splits if_splits)
qed

lemma startServer_failure:
  assumes "startServer pf env path profileName parameters s = (Inl e, s', fx)"
  shows "(e = ServerAlreadyRunning \<and> s' = s \<and> isRunning s)
       \<or> (e = ServerProcessExists \<and> s' = s \<and> \<not> isRunning s)
       \<or> ((\<exists>why. e = StartFailed why) \<and> \<not> isRunning s' \<and> serverProcess s' = None)"
proof (cases "isRunning s")
  case True
  with assms show ?thesis by (simp add: startServer_def)
next
  case False
  show ?thesis
  proof (cases "has_pid (serverProcess s)")
    case True
    with False assms show ?thesis by (simp add: startServer_def)
  next
    case np: False
    from assms False np have "(\<exists>why. e = StartFailed why) \<and> \<not> isRunning s' \<and> serverProcess s' = None"
      by (auto simp: startServer_def Let_def
          split: if_splits grace_event.splits option.splits dest!: start_failed_result)
    then show ?thesis by simp
  qed
qed

text \<open>
  Claim C8. When the server is already running (the \<open>isRunning\<close> flag is set, or a handle
  with a pid is held), a start call fails with the already-running error of the guard
  that fires, performs no effect, and returns the supervisor as it was: handle, pid,
  running flag and server path are the same before and after.
\<close>

theorem start_while_running_rejected:
  assumes "isRunning s \<or> has_pid (serverProcess s)"
  shows "startServer pf env path profileName parameters s
           = (Inl (if isRunning s then ServerAlreadyRunning else ServerProcessExists), s, [])"
  using assms by (auto simp: startServer_def)

theorem start_while_running_rejected_witness:
  "startServer Posix good_env ''/srv/dayz'' ''default'' [] running_server
     = (Inl ServerAlreadyRunning, running_server, [])
   \<and> st_pid (getServerStatus running_server) = Some 4242"
proof -
  have "isRunning running_server \<or> has_pid (serverProcess running_server)"
    by (simp add: running_server_def)
  from start_while_running_rejected [OF this, of Posix good_env "''/srv/dayz''" "''default''" "[]"]
  show ?thesis by (simp add: running_server_def getServerStatus_def)
qed

text \<open>
  Claim C2 as stated fails, in both halves. A start refused because the server is already
  running leaves the running flag set. And a start after a failed start can fail though
  the path and the executable exist and no process is alive: the server was stopped
  before, the start that failed (no executable) did not cancel the 5000 ms timer of that
  stop, and when the timer fires during the 500 ms wait of the next start its callback
  finds the new handle and sends \<open>SIGKILL\<close> through it, so that start fails as well.
\<close>

theorem failed_start_while_running_counterexample:
  "fst (startServer Posix good_env ''/srv/dayz'' ''default'' [] running_server)
     = Inl ServerAlreadyRunning
   \<and> st_isRunning
       (getServerStatus
          (fst (snd (startServer Posix good_env ''/srv/dayz'' ''default'' [] running_server))))
     = True
   \<and> fst (startServer Posix missing_exe_env ''/srv/dayz'' ''default'' [] stopped_with_timer)
     = Inl (StartFailed ExecutableNotFound)
   \<and> serverProcess after_missing_exe = None
   \<and> sigkill_timer (after_missing_exe\<lparr>serverProcess := Some (spawned good_env)\<rparr>)
     = [Kill (Some 5000) SIGKILL]
   \<and> pathExists killed_in_wait_env = True
   \<and> exeExists killed_in_wait_env = True
   \<and> fst (startServer Posix killed_in_wait_env ''/srv/dayz'' ''default'' [] after_missing_exe)
     = Inl (StartFailed KilledAfterStart)"
  by (simp add: startServer_def stopServer_def start_failed_def sigkill_timer_def
      running_server_def good_env_def missing_exe_env_def killed_in_wait_env_def
      stopped_with_timer_def after_missing_exe_def getServerStatus_def Let_def)

text \<open>
  Each condition of \<open>valid_env\<close> is needed: from the stopped supervisor, the start fails
  when the profile directory cannot be made, when \<open>spawn\<close> throws, when the \<open>error\<close> event
  fires during the wait, when an earlier process's \<open>close\<close> handler clears the handle
  during the wait, and when the spawned object has no pid.
\<close>

lemma start_needs_each_condition:
  "fst (startServer Posix (good_env\<lparr>ensureDirOk := False\<rparr>) ''/srv/dayz'' ''default'' []
          after_missing_exe) = Inl (StartFailed EnsureDirFailed)
   \<and> fst (startServer Posix (good_env\<lparr>spawnOk := False\<rparr>) ''/srv/dayz'' ''default'' []
          after_missing_exe) = Inl (StartFailed SpawnThrew)
   \<and> fst (startServer Posix (good_env\<lparr>grace := SpawnErrorEvent\<rparr>) ''/srv/dayz'' ''default'' []
          after_missing_exe) = Inl (StartFailed SpawnFailed)
   \<and> fst (startServer Posix (good_env\<lparr>grace := HandleCleared\<rparr>) ''/srv/dayz'' ''default'' []
          after_missing_exe) = Inl (StartFailed ProcessNull)
   \<and> fst (startServer Posix (good_env\<lparr>spawned := \<lparr>pid = None, killed = False\<rparr>\<rparr>)
          ''/srv/dayz'' ''default'' [] after_missing_exe) = Inl (StartFailed NoPid)"
  by (simp add: startServer_def stopServer_def start_failed_def running_server_def
      good_env_def missing_exe_env_def stopped_with_timer_def after_missing_exe_def Let_def)

text \<open>
  Claim C2, amended. After a failed start \<open>getServerStatus\<close> reports not running, unless
  the failure is the refusal by the \<open>isRunning\<close> guard. After a failure that is neither of
  the two already-running refusals the handle is cleared as well (the status has no
  pid), and a further start, with any arguments, succeeds exactly in the environments of
  \<open>valid_env\<close>: the path and the executable exist, the profile directory can be made,
  \<open>spawn\<close> returns an object with a pid, and during the wait no \<open>error\<close> event fires and no
  callback armed earlier clears the handle or kills the new process. It then returns the
  pid and leaves the server running with that pid.
\<close>

theorem failed_start_leaves_stopped:
  assumes "startServer pf env path profileName parameters s = (Inl e, s', fx)"
  shows "(e \<noteq> ServerAlreadyRunning \<longrightarrow> \<not> st_isRunning (getServerStatus s'))
       \<and> (e \<noteq> ServerAlreadyRunning \<and> e \<noteq> ServerProcessExists \<longrightarrow>
            serverProcess s' = None
          \<and> st_pid (getServerStatus s') = None
          \<and> ((\<exists>n s'' fx'.
                 startServer pf' env' path' profileName' parameters' s' = (Inr n, s'', fx')
               \<and> st_isRunning (getServerStatus s'')
               \<and> st_pid (getServerStatus s'') = Some n)
              = valid_env env'))"
proof -
  note f = startServer_failure [OF assms]
  have 1: "e \<noteq> ServerAlreadyRunning \<longrightarrow> \<not> st_isRunning (getServerStatus s')"
    using f by (auto simp: getServerStatus_def)
  have 2: "serverProcess s' = None \<and> st_pid (getServerStatus s') = None
         \<and> ((\<exists>n s'' fx'.
                 startServer pf' env' path' profileName' parameters' s' = (Inr n, s'', fx')
               \<and> st_isRunning (getServerStatus s'')
               \<and> st_pid (getServerStatus s'') = Some n)
              = valid_env env')"
    if "e \<noteq> ServerAlreadyRunning" "e \<noteq> ServerProcessExists"
  proof -
    from f that have st: "\<not> isRunning s'" "serverProcess s' = None" by auto
    have "\<exists>n s'' fx'.
            startServer pf' env' path' profileName' parameters' s' = (Inr n, s'', fx')
          \<and> st_isRunning (getServerStatus s'')
          \<and> st_pid (getServerStatus s'') = Some n"
      if "valid_env env'"
      using startServer_valid [OF that st, of pf' path' profileName' parameters']
      by (auto simp: getServerStatus_def)
    moreover have "valid_env env'"
      if "startServer pf' env' path' profileName' parameters' s' = (Inr n, s'', fx')"
      for n s'' fx'
      using startServer_returns [OF that] by simp
    ultimately show ?thesis using st by (auto simp: getServerStatus_def)
  qed
  from 1 2 show ?thesis by blast
qed

theorem failed_start_leaves_stopped_witness:
  "fst (startServer Posix missing_path_env ''/srv/dayz'' ''default'' [] new_server_control)
     = Inl (StartFailed PathNotFound)
   \<and> getServerStatus
       (fst (snd (startServer Posix missing_path_env ''/srv/dayz'' ''default'' []
                    new_server_control)))
     = \<lparr>st_isRunning = False, st_pid = None\<rparr>
   \<and> valid_env good_env
   \<and> (\<exists>n s'' fx'.
         startServer Posix good_env ''/srv/dayz'' ''default'' []
           (fst (snd (startServer Posix missing_path_env ''/srv/dayz'' ''default'' []
                        new_server_control)))
           = (Inr n, s'', fx')
       \<and> st_isRunning (getServerStatus s'')
       \<and> st_pid (getServerStatus s'') = Some n)"
proof -
  obtain s' fx where r:
    "startServer Posix missing_path_env ''/srv/dayz'' ''default'' [] new_server_control
       = (Inl (StartFailed PathNotFound), s', fx)"
    by (simp add: startServer_def missing_path_env_def good_env_def new_server_control_def
        start_failed_def)
  have v: "valid_env good_env"
    by (simp add: valid_env_def good_env_def pid_truthy_def)
  have g: "getServerStatus s' = \<lparr>st_isRunning = isRunning s', st_pid = st_pid (getServerStatus s')\<rparr>"
    by (simp add: getServerStatus_def)
  from failed_start_leaves_stopped
         [OF r, of Posix good_env "''/srv/dayz''" "''default''" "[]"] v r g
  show ?thesis by (simp add: getServerStatus_def)
qed

subsection \<open>Stopping\<close>

lemma sigkill_timer_after_stop:
  "stopServer pf env s = (Inr u, s', fx) \<Longrightarrow> sigkill_timer s' = []"
  by (auto simp: stopServer_def sigkill_timer_def Let_def split: if_splits option.splits)

lemma sigkill_timer_after_restart:
  "sigkill_timer
     (fst (snd (restartServer Posix good_env ''/srv/dayz'' ''default'' [] 0 running_server)))
     = [Kill (Some 5000) SIGKILL]"
  by (simp add: restartServer_def stopServer_def startServer_def running_server_def
      good_env_def sigkill_timer_def Let_def)

text \<open>
  Claim C3. After \<open>SIGTERM\<close> the supervisor should send \<open>SIGKILL\<close> to the process when it is
  still alive after the grace window. On the running server with pid 4242, \<open>stopServer\<close>
  sends \<open>SIGTERM\<close>, sets the 5000 ms timer and clears \<open>serverProcess\<close> before it returns;
  the timer's callback tests \<open>this.serverProcess\<close>, finds \<open>null\<close> and sends nothing,
  whether or not the process has terminated.
\<close>

theorem sigkill_escalation_never_fires:
  "fst (stopServer Posix good_env running_server) = Inr ()
   \<and> snd (snd (stopServer Posix good_env running_server))
     = [Kill (Some 4242) SIGTERM, SetTimeout 5000]
   \<and> serverProcess (fst (snd (stopServer Posix good_env running_server))) = None
   \<and> sigkill_timer (fst (snd (stopServer Posix good_env running_server))) = []"
  by (simp add: stopServer_def running_server_def good_env_def sigkill_timer_def Let_def)

subsection \<open>Scheduled restarts\<close>

lemma start_failed_effects:
  "start_failed why s fx = (res, s', fx') \<Longrightarrow> \<forall>e \<in> set fx. \<not> is_restart_entry e
   \<Longrightarrow> \<forall>e \<in> set fx'. \<not> is_restart_entry e"
  by (auto simp: start_failed_def split: option.splits)

lemma startServer_effects:
  assumes "startServer pf env path profileName parameters s = (res, s', fx)"
  shows "\<forall>e \<in> set fx. \<not> is_restart_entry e"
  using assms
  by (auto simp: startServer_def Let_def
      split: if_splits grace_event.splits option.splits dest!: start_failed_effects)

lemma startServer_success:
  assumes "startServer pf env path profileName parameters s = (Inr n, s', fx)"
  shows "isRunning s'"
  using assms
  by (auto simp: startServer_def Let_def start_failed_def
      split: if_splits grace_event.splits option.splits)

lemma stopServer_effects:
  assumes "stopServer pf env s = (res, s', fx)"
  shows "\<forall>e \<in> set fx. \<not> is_restart_entry e"
  using assms
  by (auto simp: stopServer_def Let_def split: if_splits option.splits platform.splits)

lemma restartServer_effects:
  assumes "restartServer pf env path profileName parameters c s = (res, s', fx)"
  shows "\<forall>e \<in> set fx. \<not> is_restart_entry e"
proof -
  have "fx = [] \<or> (\<exists>r1 s1 fx1 r2 s2 fx2.
           stopServer pf env s = (r1, s1, fx1)
         \<and> startServer pf env path profileName parameters s1 = (r2, s2, fx2)
         \<and> (fx = fx1 \<or> fx = fx1 @ fx2))
       \<or> (\<exists>r2 s2. startServer pf env path profileName parameters s = (r2, s2, fx))"
    using assms
    by (auto simp: restartServer_def split: if_splits prod.splits sum.splits)
  then show ?thesis
    using stopServer_effects startServer_effects by fastforce
qed

lemma restartServer_success:
  assumes "restartServer pf env path profileName parameters 0 s = (Inr x, s', fx)"
  shows "isRunning s'"
  using assms
  by (auto simp: restartServer_def split: if_splits prod.splits sum.splits
      dest: startServer_success)


lemma check_loop_not_running:
  "\<not> isRunning s \<Longrightarrow> check_loop pf world now i rs s = (None, map (mark now) rs, s, [])"
  by (induction rs arbitrary: i) (auto simp: mark_def)

text \<open>The three ways one round of the loop can go.\<close>

lemma check_loop_Cons_cases:
  assumes "check_loop pf world now i (r # rs) s = (res, rs', s', fx)" and "isRunning s"
  obtains
    (skip) rs0 where "\<not> (\<not> executed r \<and> due now r)"
      "check_loop pf world now (Suc i) rs s = (res, rs0, s', fx)" "rs' = r # rs0"
  | (throw) e fx1 where "\<not> executed r" "due now r"
      "restartServer pf (world i) (sr_serverPath r) (sr_profileName r) (sr_parameters r) 0 s
         = (Inl e, s', fx1)"
      "res = Some (i, e)" "rs' = r\<lparr>executed := True\<rparr> # rs" "fx = RestartEntry i # fx1"
  | (restart) x s1 fx1 rs0 fx2 where "\<not> executed r" "due now r"
      "restartServer pf (world i) (sr_serverPath r) (sr_profileName r) (sr_parameters r) 0 s
         = (Inr x, s1, fx1)"
      "check_loop pf world now (Suc i) rs s1 = (res, rs0, s', fx2)"
      "rs' = r\<lparr>executed := True\<rparr> # rs0" "fx = RestartEntry i # fx1 @ fx2"
  using assms by (auto split: if_splits prod.splits sum.splits)

lemma check_loop_bounds:
  assumes "check_loop pf world now i rs s = (res, rs', s', fx)" and "isRunning s"
  shows "length rs' = length rs
       \<and> (\<forall>j e. res = Some (j, e) \<longrightarrow> i \<le> j \<and> j < i + length rs)
       \<and> (\<forall>j. RestartEntry j \<in> set fx \<longrightarrow> i \<le> j \<and> j < i + length rs)"
  using assms
proof (induction rs arbitrary: i s res rs' s' fx)
  case Nil
  then show ?case by auto
next
  case (Cons r rs)
  from Cons.prems show ?case
  proof (cases rule: check_loop_Cons_cases)
    case (skip rs0)
    from Cons.IH [OF skip(2) Cons.prems(2)] skip(3) show ?thesis by auto
  next
    case (throw e fx1)
    from restartServer_effects [OF throw(3)] throw show ?thesis by auto
  next
    case (restart x s1 fx1 rs0 fx2)
    from Cons.IH [OF restart(4) restartServer_success [OF restart(3)]]
      restartServer_effects [OF restart(3)] restart(5,6)
    show ?thesis by auto
  qed
qed

lemma check_loop_entries:
  assumes "check_loop pf world now i rs s = (res, rs', s', fx)" and "isRunning s"
    and "k < length rs"
  shows "rs' ! k = (if reached res (i + k) then mark now (rs ! k) else rs ! k)"
  using assms
proof (induction rs arbitrary: i s res rs' s' fx k)
  case Nil
  then show ?case by simp
next
  case (Cons r rs)
  from Cons.prems(1,2) show ?case
  proof (cases rule: check_loop_Cons_cases)
    case (skip rs0)
    show ?thesis
    proof (cases k)
      case 0
      have "reached res i \<or> \<not> reached res i" by simp
      with skip 0 show ?thesis by (auto simp: mark_def)
    next
      case (Suc k')
      with Cons.prems(3) have "k' < length rs" by simp
      from Cons.IH [OF skip(2) Cons.prems(2) this] skip(3) Suc show ?thesis by simp
    qed
  next
    case (throw e fx1)
    then show ?thesis by (cases k) (auto simp: mark_def)
  next
    case (restart x s1 fx1 rs0 fx2)
    show ?thesis
    proof (cases k)
      case 0
      from check_loop_bounds [OF restart(4) restartServer_success [OF restart(3)]]
      have "reached res i" by (cases res) auto
      with restart 0 show ?thesis by (simp add: mark_def)
    next
      case (Suc k')
      with Cons.prems(3) have "k' < length rs" by simp
      from Cons.IH [OF restart(4) restartServer_success [OF restart(3)] this] restart(5) Suc
      show ?thesis by simp
    qed
  qed
qed

lemma check_loop_restarts:
  assumes "check_loop pf world now i rs s = (res, rs', s', fx)" and "isRunning s"
    and "k < length rs"
  shows "RestartEntry (i + k) \<in> set fx
           \<longleftrightarrow> reached res (i + k) \<and> \<not> executed (rs ! k) \<and> due now (rs ! k)"
  using assms
proof (induction rs arbitrary: i s res rs' s' fx k)
  case Nil
  then show ?case by simp
next
  case (Cons r rs)
  from Cons.prems(1,2) show ?case
  proof (cases rule: check_loop_Cons_cases)
    case (skip rs0)
    show ?thesis
    proof (cases k)
      case 0
      from check_loop_bounds [OF skip(2) Cons.prems(2)] have "RestartEntry i \<notin> set fx" by auto
      with skip 0 show ?thesis by auto
    next
      case (Suc k')
      with Cons.prems(3) have "k' < length rs" by simp
      from Cons.IH [OF skip(2) Cons.prems(2) this] Suc show ?thesis by simp
    qed
  next
    case (throw e fx1)
    from restartServer_effects [OF throw(3)] have "RestartEntry j \<notin> set fx1" for j by auto
    with throw show ?thesis by (cases k) auto
  next
    case (restart x s1 fx1 rs0 fx2)
    note run = restartServer_success [OF restart(3)]
    from restartServer_effects [OF restart(3)] have n: "RestartEntry j \<notin> set fx1" for j by auto
    show ?thesis
    proof (cases k)
      case 0
      from check_loop_bounds [OF restart(4) run]
      have "reached res i" by (cases res) auto
      with restart 0 show ?thesis by simp
    next
      case (Suc k')
      with Cons.prems(3) have "k' < length rs" by simp
      from Cons.IH [OF restart(4) run this] n restart(6) Suc show ?thesis by simp
    qed
  qed
qed

text \<open>
  Claim C7 as stated fails: with two due entries and a running server, the restart for
  the first entry stops the server and then fails to start it (the path is missing); the
  exception ends the call, and the second entry, whose time has passed as well, is left
  unexecuted by this call.
\<close>

theorem later_entry_skipped_counterexample:
  "fst (checkScheduledRestarts Posix world_missing_path 2000 running_two_due)
     = Some (0, StartFailed PathNotFound)
   \<and> map sr_time (scheduledRestarts running_two_due) = [Some 1000, Some 1500]
   \<and> map executed
       (scheduledRestarts
          (fst (snd (checkScheduledRestarts Posix world_missing_path 2000 running_two_due))))
     = [True, False]"
  by (simp add: checkScheduledRestarts_def running_two_due_def running_server_def
      entry_a_def entry_b_def due_def world_missing_path_def missing_path_env_def good_env_def
      restartServer_def stopServer_def startServer_def start_failed_def Let_def)

text \<open>
  Claim C7, amended. For the entry at index \<open>k\<close> with trigger time \<open>T\<close>, and a call at time
  \<open>now\<close>: before \<open>T\<close> the entry is left as it is and no restart is made for it; at or after
  \<open>T\<close>, if the call gets as far as the entry (no restart for an earlier entry has thrown),
  the entry is executed afterwards, and for an entry not executed before a restart is
  made for it exactly when the server is running; an entry already executed is left as it
  is and no restart is made for it; and with the server stopped the call throws nothing,
  has no effect on the outside, and leaves the server stopped with no process.
\<close>

theorem scheduled_restart_check:
  assumes "checkScheduledRestarts pf world now s = (res, s', fx)"
    and "k < length (scheduledRestarts s)"
    and "sr_time (scheduledRestarts s ! k) = Some T"
  shows "(now < T \<longrightarrow>
            scheduledRestarts s' ! k = scheduledRestarts s ! k \<and> RestartEntry k \<notin> set fx)
       \<and> (T \<le> now \<and> reached res k \<longrightarrow> executed (scheduledRestarts s' ! k))
       \<and> (T \<le> now \<and> reached res k \<and> \<not> executed (scheduledRestarts s ! k) \<longrightarrow>
            (RestartEntry k \<in> set fx \<longleftrightarrow> isRunning s))
       \<and> (executed (scheduledRestarts s ! k) \<longrightarrow>
            scheduledRestarts s' ! k = scheduledRestarts s ! k \<and> RestartEntry k \<notin> set fx)
       \<and> (\<not> isRunning s \<longrightarrow>
            res = None \<and> fx = [] \<and> \<not> isRunning s' \<and> serverProcess s' = serverProcess s)"
proof -
  let ?rs = "scheduledRestarts s"
  obtain rs' s1 where loop: "check_loop pf world now 0 ?rs s = (res, rs', s1, fx)"
    and s': "s' = s1\<lparr>scheduledRestarts := rs'\<rparr>"
    using assms(1) by (auto simp: checkScheduledRestarts_def split: prod.splits)
  have d: "due now (?rs ! k) = (T \<le> now)" using assms(3) by (simp add: due_def)
  show ?thesis
  proof (cases "isRunning s")
    case True
    from check_loop_entries [OF loop True assms(2)] check_loop_restarts [OF loop True assms(2)]
    show ?thesis using True d s' by (auto simp: mark_def)
  next
    case False
    from loop check_loop_not_running [OF False, of pf world now 0 ?rs]
    have "res = None" "rs' = map (mark now) ?rs" "s1 = s" "fx = []" by auto
    then show ?thesis using False d s' assms(2) by (auto simp: mark_def)
  qed
qed

theorem scheduled_restart_check_witness:
  "executed (scheduledRestarts
               (fst (snd (checkScheduledRestarts Posix world_good 2000 running_one_due))) ! 0)
   \<and> RestartEntry 0 \<in> set (snd (snd (checkScheduledRestarts Posix world_good 2000 running_one_due)))"
proof -
  obtain s' fx where r:
    "checkScheduledRestarts Posix world_good 2000 running_one_due = (None, s', fx)"
    by (simp add: checkScheduledRestarts_def running_one_due_def running_server_def
        entry_a_def due_def world_good_def good_env_def restartServer_def stopServer_def
        startServer_def Let_def)
  have k: "0 < length (scheduledRestarts running_one_due)"
    and t: "sr_time (scheduledRestarts running_one_due ! 0) = Some 1000"
    and x: "\<not> executed (scheduledRestarts running_one_due ! 0)"
    and u: "isRunning running_one_due"
    by (simp_all add: running_one_due_def running_server_def entry_a_def)
  from scheduled_restart_check [OF r k t] x u r show ?thesis by simp
qed

end
